theory Spec2Isabelle
  imports Main "HOL-Library.AList" "HOL-Library.Char_ord" "HOL-Library.List_Lexorder"
begin

section \<open>The configuration tree\<close>

text \<open>
  The values of \<^verbatim>\<open>shared/config_manager.py\<close> are what \<^verbatim>\<open>yaml.safe_load\<close>, the
  environment coercion and the default tables produce: None, booleans, integers, floats,
  strings, lists and dicts with string keys. A dict is an association list in insertion
  order; the key looked up is the first one that matches (\<open>map_of\<close>), and assignment
  replaces an existing key in place or appends a new one (\<open>AList.update\<close>), as a Python
  dict does. Values are trees: two places of a tree never share one dict object. What a
  YAML document with aliases shares is kept in a heap of dicts, further down. Keys are
  strings. A tuple is the one value here that is Python's own and not YAML's: \<^verbatim>\<open>set\<close> takes
  any value, and \<^verbatim>\<open>yaml.dump\<close> writes a tuple with a tag that \<^verbatim>\<open>yaml.safe_load\<close> refuses.

  A float is kept as the decimal numeral it was read from (sign, digits, power of ten)
  or as an infinity or NaN; rounding to binary64 is not part of the model.
\<close>

datatype pyfloat = FNan | FInf bool | FDec bool nat int

datatype pyval =
    VNone
  | VBool bool
  | VInt int
  | VFloat pyfloat
  | VStr string
  | VList "pyval list"
  | VTuple "pyval list"
  | VDict "(string \<times> pyval) list"

type_synonym tree = "(string \<times> pyval) list"

datatype error = KeyError | TypeError | ValueError | IndexError | YAMLError | OSError

fun is_dict :: "pyval \<Rightarrow> bool" where
  "is_dict (VDict d) = True"
| "is_dict _ = False"

section \<open>Reading by dot path\<close>

text \<open>
  \<^verbatim>\<open>current[k]\<close> with a string \<open>k\<close>: a dict gives the value or raises KeyError; a string,
  a list or a tuple raises TypeError (their indices must be integers); None, a boolean, an
  integer and a float are not subscriptable, which is a TypeError too.
\<close>

fun getitem :: "pyval \<Rightarrow> string \<Rightarrow> error + pyval" where
  "getitem (VDict d) k = (case map_of d k of Some v \<Rightarrow> Inr v | None \<Rightarrow> Inl KeyError)"
| "getitem _ k = Inl TypeError"

text \<open>The loop \<^verbatim>\<open>for k in keys: current = current[k]\<close>.\<close>

fun walk :: "pyval \<Rightarrow> string list \<Rightarrow> error + pyval" where
  "walk current [] = Inr current"
| "walk current (k # ks) =
     (case getitem current k of Inl e \<Rightarrow> Inl e | Inr v \<Rightarrow> walk v ks)"

text \<open>
  \<^verbatim>\<open>key.split('.')\<close>: every dot separates, so the result is never empty and
  \<^verbatim>\<open>''.split('.')\<close> is \<^verbatim>\<open>['']\<close>.
\<close>

fun split_dot :: "string \<Rightarrow> string list" where
  "split_dot [] = [[]]"
| "split_dot (c # cs) =
     (if c = CHR ''.'' then [] # split_dot cs
      else (case split_dot cs of w # ws \<Rightarrow> (c # w) # ws | [] \<Rightarrow> [[c]]))"

text \<open>
  \<^verbatim>\<open>ConfigManager.get\<close>: the walk runs inside \<^verbatim>\<open>try\<close>, and
  \<^verbatim>\<open>except (KeyError, TypeError)\<close> returns the default; any other exception would leave
  the method.
\<close>

definition get :: "tree \<Rightarrow> string \<Rightarrow> pyval \<Rightarrow> error + pyval" where
  "get cfg key dflt =
     (case walk (VDict cfg) (split_dot key) of
        Inr v \<Rightarrow> Inr v
      | Inl KeyError \<Rightarrow> Inr dflt
      | Inl TypeError \<Rightarrow> Inr dflt
      | Inl e \<Rightarrow> Inl e)"

text \<open>\<^verbatim>\<open>get_section\<close> is \<^verbatim>\<open>get\<close> with the empty dict as default.\<close>

definition get_section :: "tree \<Rightarrow> string \<Rightarrow> error + pyval" where
  "get_section cfg section = get cfg section (VDict [])"

section \<open>Writing by path\<close>

text \<open>
  The loop shared by \<^verbatim>\<open>_set_nested_value\<close> (on a tuple of segments) and \<^verbatim>\<open>set\<close>
  (on the split key): every segment but the last is created as an empty dict when it is
  missing and then entered; the last segment is assigned. The dicts are mutated in place,
  so the function returns the tree as it is when the method ends, together with the
  exception raised, if any. A value that is entered and is not a dict makes the next
  statement on it raise TypeError: membership and item assignment are TypeErrors on None,
  booleans, integers and floats, and on a string or a list the membership test passes and
  the indexing or the item assignment with a string key is the TypeError. The last
  segment of an empty tuple does not exist (IndexError).
\<close>

fun set_nested_value :: "string list \<Rightarrow> pyval \<Rightarrow> tree \<Rightarrow> tree \<times> error option" where
  "set_nested_value [] v current = (current, Some IndexError)"
| "set_nested_value [k] v current = (AList.update k v current, None)"
| "set_nested_value (k # k' # ks) v current =
     (let created = (if map_of current k = None then AList.update k (VDict []) current
                     else current)
      in case map_of created k of
           Some (VDict sub) \<Rightarrow>
             (case set_nested_value (k' # ks) v sub of
                (sub', e) \<Rightarrow> (AList.update k (VDict sub') created, e))
         | _ \<Rightarrow> (created, Some TypeError))"

definition set_value :: "string \<Rightarrow> pyval \<Rightarrow> tree \<Rightarrow> tree \<times> error option" where
  "set_value key v cfg = set_nested_value (split_dot key) v cfg"

section \<open>Coercion of environment strings\<close>

text \<open>
  \<^verbatim>\<open>int\<close> and \<^verbatim>\<open>float\<close> are the interpreter's; they are modelled on ASCII text after
  the language reference. Both strip the white space of C's \<^verbatim>\<open>isspace\<close> at both ends and
  take an optional sign. An integer is a digit followed by digits, each optionally preceded
  by one underscore. A float is \<^verbatim>\<open>inf\<close>, \<^verbatim>\<open>infinity\<close> or \<^verbatim>\<open>nan\<close> in any case, or
  digits with an optional point and more digits (one digit at least) and an optional
  exponent of \<^verbatim>\<open>e\<close>, an optional sign and digits; underscores may stand between two
  digits only. Both raise ValueError on anything else. Characters outside ASCII count as
  neither digits nor white space, and the interpreter's limit on the number of digits of an
  integer is left out.
\<close>

definition is_space :: "char \<Rightarrow> bool" where
  "is_space c = (c \<in> set [CHR 0x09, CHR 0x0A, CHR 0x0B, CHR 0x0C, CHR 0x0D, CHR 0x20])"

definition is_digit :: "char \<Rightarrow> bool" where
  "is_digit c = (c \<in> set ''0123456789'')"

definition digit_val :: "char \<Rightarrow> nat" where
  "digit_val c = of_char c - 48"

definition lower_char :: "char \<Rightarrow> char" where
  "lower_char c =
     (case map_of (zip ''ABCDEFGHIJKLMNOPQRSTUVWXYZ'' ''abcdefghijklmnopqrstuvwxyz'') c of
        Some l \<Rightarrow> l
      | None \<Rightarrow> c)"

definition lower :: "string \<Rightarrow> string" where
  "lower s = map lower_char s"

definition strip :: "string \<Rightarrow> string" where
  "strip s = rev (dropWhile is_space (rev (dropWhile is_space s)))"

definition split_sign :: "string \<Rightarrow> bool \<times> string" where
  "split_sign t =
     (case t of
        [] \<Rightarrow> (False, [])
      | c # cs \<Rightarrow> if c = CHR ''-'' then (True, cs)
                  else if c = CHR ''+'' then (False, cs) else (False, t))"

fun digits_value :: "nat \<Rightarrow> string \<Rightarrow> nat option" where
  "digits_value acc [] = Some acc"
| "digits_value acc (c # cs) =
     (if is_digit c then digits_value (10 * acc + digit_val c) cs
      else if c = CHR ''_'' then
        (case cs of [] \<Rightarrow> None
         | d # ds \<Rightarrow> if is_digit d then digits_value acc cs else None)
      else None)"

definition natural :: "string \<Rightarrow> nat option" where
  "natural s = (case s of [] \<Rightarrow> None
                | c # cs \<Rightarrow> if is_digit c then digits_value 0 s else None)"

definition py_int :: "string \<Rightarrow> error + int" where
  "py_int s =
     (case split_sign (strip s) of
        (neg, body) \<Rightarrow>
          (case natural body of
             None \<Rightarrow> Inl ValueError
           | Some n \<Rightarrow> Inr (if neg then - int n else int n)))"

fun underscores_ok :: "char \<Rightarrow> string \<Rightarrow> bool" where
  "underscores_ok prev [] = (prev \<noteq> CHR ''_'')"
| "underscores_ok prev (c # cs) =
     ((if c = CHR ''_'' then is_digit prev else (prev = CHR ''_'' \<longrightarrow> is_digit c))
      \<and> underscores_ok c cs)"

definition digits_nat :: "string \<Rightarrow> nat" where
  "digits_nat s = foldl (\<lambda>a c. 10 * a + digit_val c) 0 s"

definition all_digits :: "string \<Rightarrow> bool" where
  "all_digits s = (s \<noteq> [] \<and> list_all is_digit s)"

definition exponent :: "string \<Rightarrow> int option" where
  "exponent r =
     (case split_sign r of
        (neg, ds) \<Rightarrow>
          if all_digits ds then Some (if neg then - int (digits_nat ds) else int (digits_nat ds))
          else None)"

definition decimal :: "bool \<Rightarrow> string \<Rightarrow> pyfloat option" where
  "decimal neg u =
     (let ip = takeWhile is_digit u;
          r1 = dropWhile is_digit u;
          fp = (case r1 of [] \<Rightarrow> []
                | c # r \<Rightarrow> if c = CHR ''.'' then takeWhile is_digit r else []);
          r2 = (case r1 of [] \<Rightarrow> []
                | c # r \<Rightarrow> if c = CHR ''.'' then dropWhile is_digit r else r1)
      in if ip = [] \<and> fp = [] then None
         else (case r2 of
                 [] \<Rightarrow> Some (FDec neg (digits_nat (ip @ fp)) (- int (length fp)))
               | c # r3 \<Rightarrow>
                   if c = CHR ''e'' \<or> c = CHR ''E'' then
                     (case exponent r3 of
                        None \<Rightarrow> None
                      | Some x \<Rightarrow> Some (FDec neg (digits_nat (ip @ fp)) (x - int (length fp))))
                   else None))"

definition py_float :: "string \<Rightarrow> error + pyfloat" where
  "py_float s =
     (if \<not> underscores_ok (CHR 0x00) s then Inl ValueError
      else (case split_sign (strip (filter (\<lambda>c. c \<noteq> CHR ''_'') s)) of
              (neg, u) \<Rightarrow>
                if lower u = ''inf'' \<or> lower u = ''infinity'' then Inr (FInf neg)
                else if lower u = ''nan'' then Inr FNan
                else (case decimal neg u of
                        None \<Rightarrow> Inl ValueError
                      | Some f \<Rightarrow> Inr f)))"

text \<open>
  \<^verbatim>\<open>_convert_env_value\<close>: the boolean test first, then \<^verbatim>\<open>int\<close>, then \<^verbatim>\<open>float\<close>,
  each inside \<^verbatim>\<open>try\<close> with \<^verbatim>\<open>except ValueError: pass\<close>, then the string itself. An
  exception other than ValueError would leave the method.
\<close>

definition convert_env_value :: "string \<Rightarrow> error + pyval" where
  "convert_env_value v =
     (if lower v = ''true'' \<or> lower v = ''false'' then Inr (VBool (lower v = ''true''))
      else (case py_int v of
              Inr i \<Rightarrow> Inr (VInt i)
            | Inl e \<Rightarrow>
                if e \<noteq> ValueError then Inl e
                else (case py_float v of
                        Inr f \<Rightarrow> Inr (VFloat f)
                      | Inl e' \<Rightarrow> if e' \<noteq> ValueError then Inl e' else Inr (VStr v))))"

section \<open>Source resolution\<close>

text \<open>
  The environment is what \<^verbatim>\<open>os.getenv\<close> sees when \<^verbatim>\<open>_apply_env_overrides\<close> runs (after
  the optional \<^verbatim>\<open>load_dotenv\<close>): a finite table of names and strings.
\<close>

type_synonym env = "(string \<times> string) list"

definition getenv :: "env \<Rightarrow> string \<Rightarrow> string option" where
  "getenv e name = map_of e name"

definition env_mappings :: "(string \<times> string list) list" where
  "env_mappings =
     [(''MQTT_HOST'', [''mqtt'', ''host'']),
      (''MQTT_PORT'', [''mqtt'', ''port'']),
      (''MQTT_USERNAME'', [''mqtt'', ''username'']),
      (''MQTT_PASSWORD'', [''mqtt'', ''password'']),
      (''MQTT_USE_TLS'', [''mqtt'', ''use_tls'']),
      (''SENSOR_PIN'', [''sensor_pin'']),
      (''SENSOR_TYPE'', [''sensor_type'']),
      (''UPDATE_INTERVAL'', [''update_interval'']),
      (''CLIENT_ID'', [''client_id'']),
      (''DATABASE_PATH'', [''database'', ''path'']),
      (''DASHBOARD_PORT'', [''dashboard'', ''port'']),
      (''LOG_LEVEL'', [''logging'', ''level''])]"

text \<open>
  The loop of \<^verbatim>\<open>_apply_env_overrides\<close> over the items of the table, in the order they
  are written. An exception ends the loop with the tree as mutated so far. First the loop
  on a mapping that shares nothing; the loop on whatever \<^verbatim>\<open>_config\<close> holds follows with the
  heap.
\<close>

fun apply_overrides :: "(string \<times> string list) list \<Rightarrow> env \<Rightarrow> tree \<Rightarrow> tree \<times> error option" where
  "apply_overrides [] e cfg = (cfg, None)"
| "apply_overrides ((env_key, config_path) # ms) e cfg =
     (case getenv e env_key of
        None \<Rightarrow> apply_overrides ms e cfg
      | Some v \<Rightarrow>
          (case convert_env_value v of
             Inl err \<Rightarrow> (cfg, Some err)
           | Inr x \<Rightarrow>
               (case set_nested_value config_path x cfg of
                  (cfg', Some err) \<Rightarrow> (cfg', Some err)
                | (cfg', None) \<Rightarrow> apply_overrides ms e cfg')))"

section \<open>Shared dicts\<close>

text \<open>
  \<^verbatim>\<open>yaml.safe_load\<close> builds one dict for an anchored mapping and hands the same object to
  every alias of it, and the code writes into dicts in place. A value reached from
  \<^verbatim>\<open>_config\<close> is therefore either immediate, a tree that nothing else refers to, or a
  reference to a dict in a heap whose entries are such values again. A reference whose
  cell is not in the heap reads as the empty dict. Lists are kept immediate: no operation
  here writes below a list.
\<close>

datatype hval = Imm pyval | Ref nat

type_synonym cell = "(string \<times> hval) list"

type_synonym heap = "(nat \<times> cell) list"

record graph =
  heap :: heap
  root :: hval

definition cell_of :: "heap \<Rightarrow> nat \<Rightarrow> cell" where
  "cell_of h a = (case map_of h a of Some c \<Rightarrow> c | None \<Rightarrow> [])"

fun getitem_h :: "heap \<Rightarrow> hval \<Rightarrow> string \<Rightarrow> error + hval" where
  "getitem_h h (Imm v) k = (case getitem v k of Inl e \<Rightarrow> Inl e | Inr x \<Rightarrow> Inr (Imm x))"
| "getitem_h h (Ref a) k =
     (case map_of (cell_of h a) k of Some x \<Rightarrow> Inr x | None \<Rightarrow> Inl KeyError)"

fun walk_h :: "heap \<Rightarrow> hval \<Rightarrow> string list \<Rightarrow> error + hval" where
  "walk_h h current [] = Inr current"
| "walk_h h current (k # ks) =
     (case getitem_h h current k of Inl e \<Rightarrow> Inl e | Inr v \<Rightarrow> walk_h h v ks)"

text \<open>\<^verbatim>\<open>ConfigManager.get\<close> on whatever \<^verbatim>\<open>_config\<close> holds.\<close>

definition get_h :: "graph \<Rightarrow> string \<Rightarrow> pyval \<Rightarrow> error + hval" where
  "get_h g key dflt =
     (case walk_h (heap g) (root g) (split_dot key) of
        Inr v \<Rightarrow> Inr v
      | Inl KeyError \<Rightarrow> Inr (Imm dflt)
      | Inl TypeError \<Rightarrow> Inr (Imm dflt)
      | Inl e \<Rightarrow> Inl e)"

text \<open>
  The loop of \<^verbatim>\<open>_set_nested_value\<close> when \<^verbatim>\<open>current\<close> is the dict of a heap cell. A missing
  segment is created in that cell; a segment that holds a reference is entered in the
  heap; a segment that holds an immediate dict is written by \<open>set_nested_value\<close> and put
  back in the cell, which is the same as the write in place since nothing else refers to
  it.
\<close>

fun set_in_cell :: "string list \<Rightarrow> pyval \<Rightarrow> heap \<Rightarrow> nat \<Rightarrow> heap \<times> error option" where
  "set_in_cell [] v h a = (h, Some IndexError)"
| "set_in_cell [k] v h a = (AList.update a (AList.update k (Imm v) (cell_of h a)) h, None)"
| "set_in_cell (k # k' # ks) v h a =
     (let created = (if map_of (cell_of h a) k = None
                     then AList.update k (Imm (VDict [])) (cell_of h a) else cell_of h a);
          h1 = (if map_of (cell_of h a) k = None then AList.update a created h else h)
      in case map_of created k of
           Some (Ref b) \<Rightarrow> set_in_cell (k' # ks) v h1 b
         | Some (Imm (VDict sub)) \<Rightarrow>
             (case set_nested_value (k' # ks) v sub of
                (sub', e) \<Rightarrow> (AList.update a (AList.update k (Imm (VDict sub')) created) h1, e))
         | _ \<Rightarrow> (h1, Some TypeError))"

text \<open>
  \<^verbatim>\<open>_set_nested_value\<close> from \<^verbatim>\<open>self._config\<close>, whatever it holds: an immediate dict, a dict
  of the heap, or a value that is not a dict, where the first statement on it is the
  TypeError.
\<close>

definition set_nested_value_h :: "string list \<Rightarrow> pyval \<Rightarrow> graph \<Rightarrow> graph \<times> error option" where
  "set_nested_value_h path v g =
     (case root g of
        Imm (VDict d) \<Rightarrow>
          (case set_nested_value path v d of (d', e) \<Rightarrow> (g\<lparr>root := Imm (VDict d')\<rparr>, e))
      | Imm _ \<Rightarrow> (g, Some (if path = [] then IndexError else TypeError))
      | Ref a \<Rightarrow> (case set_in_cell path v (heap g) a of (h', e) \<Rightarrow> (g\<lparr>heap := h'\<rparr>, e)))"

fun apply_overrides_h ::
  "(string \<times> string list) list \<Rightarrow> env \<Rightarrow> graph \<Rightarrow> graph \<times> error option" where
  "apply_overrides_h [] e g = (g, None)"
| "apply_overrides_h ((env_key, config_path) # ms) e g =
     (case getenv e env_key of
        None \<Rightarrow> apply_overrides_h ms e g
      | Some v \<Rightarrow>
          (case convert_env_value v of
             Inl err \<Rightarrow> (g, Some err)
           | Inr x \<Rightarrow>
               (case set_nested_value_h config_path x g of
                  (g', Some err) \<Rightarrow> (g', Some err)
                | (g', None) \<Rightarrow> apply_overrides_h ms e g')))"

definition apply_env_overrides :: "env \<Rightarrow> graph \<Rightarrow> graph \<times> error option" where
  "apply_env_overrides e g = apply_overrides_h env_mappings e g"

section \<open>The configuration file\<close>

text \<open>
  The file at \<^verbatim>\<open>config_path\<close>, as \<^verbatim>\<open>_load_config\<close> meets it: missing; present and not
  readable, where \<^verbatim>\<open>open\<close> raises an OSError; present with bytes that are not text in the
  encoding of \<^verbatim>\<open>open\<close>, where reading raises UnicodeDecodeError, a ValueError; present
  with text that \<^verbatim>\<open>yaml.safe_load\<close> rejects with a YAMLError; or present with a document,
  which is whatever \<^verbatim>\<open>safe_load\<close> returns for it: a mapping, a list, a scalar, None for
  an empty file, with the dicts that its aliases share in the heap. The code does not
  check that the document is a mapping.
\<close>

datatype yaml_file = Missing | Unreadable | Undecodable | Malformed | Document graph

text \<open>
  The values that \<^verbatim>\<open>or\<close> takes for false. (A float is zero here when its digits are; the
  rounding of a tiny numeral to zero is not part of the model.)
\<close>

fun falsy :: "pyval \<Rightarrow> bool" where
  "falsy VNone = True"
| "falsy (VBool b) = (\<not> b)"
| "falsy (VInt i) = (i = 0)"
| "falsy (VFloat f) = (case f of FDec s m x \<Rightarrow> m = 0 | _ \<Rightarrow> False)"
| "falsy (VStr s) = (s = [])"
| "falsy (VList xs) = (xs = [])"
| "falsy (VTuple xs) = (xs = [])"
| "falsy (VDict d) = (d = [])"

definition falsy_root :: "graph \<Rightarrow> bool" where
  "falsy_root g = (case root g of Imm v \<Rightarrow> falsy v | Ref a \<Rightarrow> cell_of (heap g) a = [])"

definition empty_graph :: graph where
  "empty_graph = \<lparr>heap = [], root = Imm (VDict [])\<rparr>"

text \<open>
  \<^verbatim>\<open>_load_config\<close>: \<^verbatim>\<open>open\<close> and \<^verbatim>\<open>safe_load\<close> raise before \<^verbatim>\<open>_config\<close> is assigned;
  \<^verbatim>\<open>or {}\<close> puts a new empty dict in the place of a false document; a missing file gives
  the empty dict; the overrides follow; the \<^verbatim>\<open>except\<close> clause logs and raises again. The
  arguments are the environment, the file as it is at the call, and \<^verbatim>\<open>_config\<close> before.
\<close>

definition load_config :: "env \<Rightarrow> yaml_file \<Rightarrow> graph \<Rightarrow> graph \<times> error option" where
  "load_config e f g =
     (case f of
        Unreadable \<Rightarrow> (g, Some OSError)
      | Undecodable \<Rightarrow> (g, Some ValueError)
      | Malformed \<Rightarrow> (g, Some YAMLError)
      | Missing \<Rightarrow> apply_env_overrides e empty_graph
      | Document doc \<Rightarrow>
          apply_env_overrides e (if falsy_root doc then empty_graph else doc))"

text \<open>
  A store whose tree is a mapping that shares nothing, with the file at its path. The
  operations \<^verbatim>\<open>get\<close>, \<^verbatim>\<open>set\<close> and \<^verbatim>\<open>validate_config\<close> are stated on it.
\<close>

record store =
  config :: tree
  disk :: yaml_file

definition graph_of :: "store \<Rightarrow> graph" where
  "graph_of s = \<lparr>heap = [], root = Imm (VDict (config s))\<rparr>"

section \<open>Default profiles\<close>

text \<open>
  The two tables of \<^verbatim>\<open>shared/constants.py\<close>, as they are written there. (A store receives
  the nested dicts of its table themselves, not copies; the tables are taken as written
  when a store is built.)
\<close>

definition DEFAULT_CLIENT_CONFIG :: tree where
  "DEFAULT_CLIENT_CONFIG =
     [(''client_id'', VStr ''pi_client_001''),
      (''sensor_pin'', VInt 4),
      (''sensor_type'', VStr ''DHT11''),
      (''update_interval'', VInt 30),
      (''mqtt'', VDict
         [(''host'', VStr ''192.168.1.112''),
          (''port'', VInt 8883),
          (''username'', VStr []),
          (''password'', VStr []),
          (''use_tls'', VBool True),
          (''ca_cert'', VStr ''/etc/ssl/certs/ca-certificates.crt'')]),
      (''modbus'', VDict
         [(''enabled'', VBool False),
          (''port'', VInt 5020),
          (''slave_id'', VInt 1)]),
      (''logging'', VDict
         [(''level'', VStr ''INFO''),
          (''max_size'', VStr ''10MB''),
          (''backup_count'', VInt 5)])]"

definition DEFAULT_HOST_CONFIG :: tree where
  "DEFAULT_HOST_CONFIG =
     [(''mqtt'', VDict
         [(''host'', VStr ''0.0.0.0''),
          (''port'', VInt 8883),
          (''websocket_port'', VInt 9001),
          (''username'', VStr ''admin''),
          (''password'', VStr ''secure_password_123''),
          (''use_tls'', VBool True),
          (''cert_file'', VStr ''/etc/ssl/certs/mqtt-server.crt''),
          (''key_file'', VStr ''/etc/ssl/private/mqtt-server.key'')]),
      (''database'', VDict
         [(''type'', VStr ''sqlite''),
          (''path'', VStr ''data/sensors.db''),
          (''retention_days'', VInt 365)]),
      (''dashboard'', VDict
         [(''host'', VStr ''0.0.0.0''),
          (''port'', VInt 8080),
          (''debug'', VBool False),
          (''secret_key'', VStr ''your-secret-key-here'')]),
      (''logging'', VDict
         [(''level'', VStr ''INFO''),
          (''max_size'', VStr ''50MB''),
          (''backup_count'', VInt 10)])]"

text \<open>
  The loop of \<^verbatim>\<open>_apply_defaults\<close> on a dict: a key that is not in it is assigned its
  default.
\<close>

fun fill_missing :: "(string \<times> 'a) list \<Rightarrow> (string \<times> 'a) list \<Rightarrow> (string \<times> 'a) list" where
  "fill_missing [] cfg = cfg"
| "fill_missing ((key, v) # ds) cfg =
     fill_missing ds (if map_of cfg key = None then AList.update key v cfg else cfg)"

text \<open>
  \<^verbatim>\<open>key not in self._config\<close> and \<^verbatim>\<open>self._config[key] = value\<close> on whatever \<^verbatim>\<open>_config\<close>
  holds: on a string the test is the substring test, on a list or a tuple it is
  membership, on the other values that are not dicts it raises TypeError; the assignment
  raises TypeError on everything that is not a dict.
\<close>

fun starts_with :: "string \<Rightarrow> string \<Rightarrow> bool" where
  "starts_with s [] = True"
| "starts_with [] (c # k) = False"
| "starts_with (a # s) (c # k) = (a = c \<and> starts_with s k)"

fun contains_str :: "string \<Rightarrow> string \<Rightarrow> bool" where
  "contains_str [] k = (k = [])"
| "contains_str (a # s) k = (starts_with (a # s) k \<or> contains_str s k)"

fun not_in :: "heap \<Rightarrow> hval \<Rightarrow> string \<Rightarrow> error + bool" where
  "not_in h (Ref a) key = Inr (map_of (cell_of h a) key = None)"
| "not_in h (Imm (VDict d)) key = Inr (map_of d key = None)"
| "not_in h (Imm (VStr s)) key = Inr (\<not> contains_str s key)"
| "not_in h (Imm (VList xs)) key = Inr (VStr key \<notin> set xs)"
| "not_in h (Imm (VTuple xs)) key = Inr (VStr key \<notin> set xs)"
| "not_in h (Imm _) key = Inl TypeError"

definition setitem_root :: "string \<Rightarrow> pyval \<Rightarrow> graph \<Rightarrow> graph \<times> error option" where
  "setitem_root key v g =
     (case root g of
        Imm (VDict d) \<Rightarrow> (g\<lparr>root := Imm (VDict (AList.update key v d))\<rparr>, None)
      | Imm _ \<Rightarrow> (g, Some TypeError)
      | Ref a \<Rightarrow>
          (g\<lparr>heap := AList.update a (AList.update key (Imm v) (cell_of (heap g) a)) (heap g)\<rparr>,
           None))"

fun apply_defaults :: "tree \<Rightarrow> graph \<Rightarrow> graph \<times> error option" where
  "apply_defaults [] g = (g, None)"
| "apply_defaults ((key, v) # ds) g =
     (case not_in (heap g) (root g) key of
        Inl err \<Rightarrow> (g, Some err)
      | Inr False \<Rightarrow> apply_defaults ds g
      | Inr True \<Rightarrow>
          (case setitem_root key v g of
             (g', Some err) \<Rightarrow> (g', Some err)
           | (g', None) \<Rightarrow> apply_defaults ds g'))"

text \<open>
  The three classes: \<^verbatim>\<open>ConfigManager\<close> applies no defaults, \<^verbatim>\<open>ClientConfigManager\<close>
  and \<^verbatim>\<open>HostConfigManager\<close> apply their table after the constructor of the base class.
\<close>

datatype profile = Base | Client | Host

fun defaults :: "profile \<Rightarrow> tree" where
  "defaults Base = []"
| "defaults Client = DEFAULT_CLIENT_CONFIG"
| "defaults Host = DEFAULT_HOST_CONFIG"

text \<open>
  \<^verbatim>\<open>__init__\<close>: \<^verbatim>\<open>_config\<close> starts as the empty dict, \<^verbatim>\<open>_load_config\<close> runs, then
  \<^verbatim>\<open>_apply_defaults\<close> in the two subclasses; an exception of either leaves the constructor,
  so that no store exists. The result is what \<^verbatim>\<open>_config\<close> holds.
\<close>

definition init :: "profile \<Rightarrow> yaml_file \<Rightarrow> env \<Rightarrow> error + graph" where
  "init p f e =
     (case load_config e f empty_graph of
        (g, Some err) \<Rightarrow> Inl err
      | (g, None) \<Rightarrow>
          (case apply_defaults (defaults p) g of
             (g', Some err) \<Rightarrow> Inl err
           | (g', None) \<Rightarrow> Inr g'))"

text \<open>\<^verbatim>\<open>reload\<close> is defined once, in the base class, and calls \<^verbatim>\<open>_load_config\<close> only.\<close>

definition reload :: "env \<Rightarrow> yaml_file \<Rightarrow> graph \<Rightarrow> graph \<times> error option" where
  "reload e f g = load_config e f g"

text \<open>
  \<^verbatim>\<open>save_config\<close> without a path, when the write succeeds; the result is the file at
  \<^verbatim>\<open>config_path\<close> afterwards. \<^verbatim>\<open>yaml.dump\<close> writes the keys of every mapping in sorted
  order, so the document that loads from the file has them in that order; it writes
  shared dicts with anchors and aliases, so they are shared again; and it writes a tuple
  with the tag \<^verbatim>\<open>!!python/tuple\<close>, which makes the file one that \<^verbatim>\<open>safe_load\<close> rejects.
\<close>

fun sort_keys :: "pyval \<Rightarrow> pyval" where
  "sort_keys (VDict d) = VDict (sort_key fst (map (\<lambda>p. (fst p, sort_keys (snd p))) d))"
| "sort_keys (VList xs) = VList (map sort_keys xs)"
| "sort_keys (VTuple xs) = VTuple (map sort_keys xs)"
| "sort_keys v = v"

fun yaml_safe :: "pyval \<Rightarrow> bool" where
  "yaml_safe (VTuple xs) = False"
| "yaml_safe (VList xs) = (\<forall>x \<in> set xs. yaml_safe x)"
| "yaml_safe (VDict d) = (\<forall>p \<in> set d. yaml_safe (snd p))"
| "yaml_safe v = True"

fun sort_hval :: "hval \<Rightarrow> hval" where
  "sort_hval (Imm v) = Imm (sort_keys v)"
| "sort_hval (Ref a) = Ref a"

fun safe_hval :: "hval \<Rightarrow> bool" where
  "safe_hval (Imm v) = yaml_safe v"
| "safe_hval (Ref a) = True"

definition sort_cell :: "cell \<Rightarrow> cell" where
  "sort_cell c = sort_key fst (map (\<lambda>p. (fst p, sort_hval (snd p))) c)"

definition dump :: "graph \<Rightarrow> graph" where
  "dump g = \<lparr>heap = map (\<lambda>p. (fst p, sort_cell (snd p))) (heap g), root = sort_hval (root g)\<rparr>"

definition safe_graph :: "graph \<Rightarrow> bool" where
  "safe_graph g = (safe_hval (root g) \<and> (\<forall>p \<in> set (heap g). \<forall>q \<in> set (snd p). safe_hval (snd q)))"

definition save_config :: "graph \<Rightarrow> yaml_file" where
  "save_config g = (if safe_graph g then Document (dump g) else Malformed)"

text \<open>\<^verbatim>\<open>set\<close> and \<^verbatim>\<open>get\<close> on a store.\<close>

definition store_set :: "string \<Rightarrow> pyval \<Rightarrow> store \<Rightarrow> store \<times> error option" where
  "store_set key v s =
     (case set_value key v (config s) of (cfg, err) \<Rightarrow> (s\<lparr>config := cfg\<rparr>, err))"

definition store_get :: "store \<Rightarrow> string \<Rightarrow> pyval \<Rightarrow> error + pyval" where
  "store_get s key dflt = get (config s) key dflt"

section \<open>Schema validation\<close>








text \<open>
  A path is blocked in a tree when one of its proper, non-empty prefixes leads to a value
  that is there and is not a mapping.
\<close>

definition blocked_path :: "string list \<Rightarrow> tree \<Rightarrow> bool" where
  "blocked_path ks cfg =
     (\<exists>n \<in> {1..<length ks}.
        case walk (VDict cfg) (take n ks) of Inr x \<Rightarrow> \<not> is_dict x | Inl e \<Rightarrow> False)"


text \<open>The characters of a decimal float numeral after the white space is stripped.\<close>

definition float_char :: "char \<Rightarrow> bool" where
  "float_char c = (is_digit c \<or> c \<in> set ''.eE+-'')"

section \<open>Paths of the override table\<close>

text \<open>
  Two paths diverge when they differ at a position that both have: neither is a prefix of
  the other, so a write at one does not pass through the other. The dotted form of a path
  is the key the specification writes for it. A table is independent when its paths
  diverge pairwise.
\<close>

fun diverge :: "string list \<Rightarrow> string list \<Rightarrow> bool" where
  "diverge (a # as) (b # bs) = (a \<noteq> b \<or> diverge as bs)"
| "diverge _ _ = False"

fun dotted :: "string list \<Rightarrow> string" where
  "dotted [] = []"
| "dotted [k] = k"
| "dotted (k # k' # ks) = k @ CHR ''.'' # dotted (k' # ks)"

fun independent :: "(string \<times> string list) list \<Rightarrow> bool" where
  "independent [] = True"
| "independent (m # ms) = ((\<forall>m' \<in> set ms. diverge (snd m) (snd m') \<and> diverge (snd m') (snd m))
                          \<and> independent ms)"

section \<open>Files without aliases, and the keys of the root\<close>

text \<open>
  A file is free of aliases when the root of its document is immediate. Such a file
  resolves, before the overrides, to a mapping when it is missing (the empty mapping),
  when its document is false (the empty mapping of \<^verbatim>\<open>or {}\<close>) or when its document is a
  mapping. A document is a mapping document when its root is a dict, immediate or in the
  heap, or is replaced by one. The lookup of a top-level key is the lookup in the dict of
  the root.
\<close>

definition alias_free :: "yaml_file \<Rightarrow> bool" where
  "alias_free f =
     (case f of Document doc \<Rightarrow> (case root doc of Imm v \<Rightarrow> True | Ref a \<Rightarrow> False) | _ \<Rightarrow> True)"

definition mapping_of :: "yaml_file \<Rightarrow> tree option" where
  "mapping_of f =
     (case f of
        Missing \<Rightarrow> Some []
      | Document doc \<Rightarrow>
          (case root doc of
             Imm v \<Rightarrow> if falsy v then Some [] else (case v of VDict t \<Rightarrow> Some t | _ \<Rightarrow> None)
           | Ref a \<Rightarrow> None)
      | _ \<Rightarrow> None)"

definition mapping_root :: "graph \<Rightarrow> bool" where
  "mapping_root g = (case root g of Imm v \<Rightarrow> is_dict v | Ref a \<Rightarrow> True)"

definition mapping_document :: "yaml_file \<Rightarrow> bool" where
  "mapping_document f =
     (case f of
        Missing \<Rightarrow> True
      | Document doc \<Rightarrow> falsy_root doc \<or> mapping_root doc
      | _ \<Rightarrow> False)"

definition top_lookup :: "graph \<Rightarrow> string \<Rightarrow> hval option" where
  "top_lookup g k =
     (case root g of
        Imm v \<Rightarrow> (case v of VDict d \<Rightarrow> map_option Imm (map_of d k) | _ \<Rightarrow> None)
      | Ref a \<Rightarrow> map_of (cell_of (heap g) a) k)"

text \<open>
  On a document that is not a mapping, the step of \<^verbatim>\<open>_apply_defaults\<close> for a key raises
  unless the test \<^verbatim>\<open>key not in self._config\<close> returns False: the test itself raises, or
  it holds and the assignment raises.
\<close>

definition default_raises :: "pyval \<Rightarrow> string \<Rightarrow> bool" where
  "default_raises v key = (not_in [] (Imm v) key \<noteq> Inr False)"






text \<open>The entries of a mapping as they load from its dump.\<close>

definition sorted_tree :: "tree \<Rightarrow> tree" where
  "sorted_tree t = sort_key fst (map (\<lambda>p. (fst p, sort_keys (snd p))) t)"

text \<open>The result of \<^verbatim>\<open>get\<close> when the coerced value of an environment string is found.\<close>

definition found_coerced :: "string \<Rightarrow> error + hval" where
  "found_coerced x = (case convert_env_value x of Inl err \<Rightarrow> Inl err | Inr y \<Rightarrow> Inr (Imm y))"

section \<open>Properties of reading\<close>

lemma getitem_errors: "getitem x k = Inl e \<Longrightarrow> e = KeyError \<or> e = TypeError"
  by (cases x) (auto split: option.splits)

lemma walk_errors: "walk x ks = Inl e \<Longrightarrow> e = KeyError \<or> e = TypeError"
proof (induction ks arbitrary: x)
  case Nil
  then show ?case by simp
next
  case (Cons k ks)
  show ?case
  proof (cases "getitem x k")
    case (Inl e')
    with Cons.prems have "e = e'" by simp
    with Inl show ?thesis using getitem_errors by blast
  next
    case (Inr v)
    with Cons.prems have "walk v ks = Inl e" by simp
    then show ?thesis by (rule Cons.IH)
  qed
qed

lemma split_dot_nonempty: "split_dot s \<noteq> []"
  by (induction s) (auto split: list.splits)

lemma get_by_walk:
  "get cfg key d = Inr (case walk (VDict cfg) (split_dot key) of Inr v \<Rightarrow> v | Inl e \<Rightarrow> d)"
proof (cases "walk (VDict cfg) (split_dot key)")
  case (Inl e)
  then have "e = KeyError \<or> e = TypeError" by (rule walk_errors)
  with Inl show ?thesis by (auto simp: get_def)
next
  case (Inr v)
  then show ?thesis by (simp add: get_def)
qed

section \<open>Properties of writing\<close>

lemma blocked_path_iff:
  "blocked_path ks cfg \<longleftrightarrow>
     (\<exists>n x. 1 \<le> n \<and> n < length ks \<and> walk (VDict cfg) (take n ks) = Inr x \<and> \<not> is_dict x)"
proof
  assume "blocked_path ks cfg"
  then obtain n where n: "1 \<le> n" "n < length ks"
    and c: "case walk (VDict cfg) (take n ks) of Inr x \<Rightarrow> \<not> is_dict x | Inl e \<Rightarrow> False"
    unfolding blocked_path_def by auto
  from c obtain x where "walk (VDict cfg) (take n ks) = Inr x" "\<not> is_dict x"
    by (cases "walk (VDict cfg) (take n ks)") auto
  with n show "\<exists>n x. 1 \<le> n \<and> n < length ks \<and> walk (VDict cfg) (take n ks) = Inr x \<and> \<not> is_dict x"
    by blast
next
  assume "\<exists>n x. 1 \<le> n \<and> n < length ks \<and> walk (VDict cfg) (take n ks) = Inr x \<and> \<not> is_dict x"
  then obtain n x where "1 \<le> n" "n < length ks" "walk (VDict cfg) (take n ks) = Inr x" "\<not> is_dict x"
    by blast
  then show "blocked_path ks cfg"
    unfolding blocked_path_def by (intro bexI[of _ n]) auto
qed

lemma walk_Cons_dict:
  "walk (VDict d) (k # ks) = (case map_of d k of None \<Rightarrow> Inl KeyError | Some x \<Rightarrow> walk x ks)"
  by (simp split: option.splits)

lemma walk_non_dict: "\<not> is_dict x \<Longrightarrow> ks \<noteq> [] \<Longrightarrow> walk x ks = Inl TypeError"
  by (cases x; cases ks) auto

lemma set_nested_value_blocked_prefix:
  "p \<noteq> [] \<Longrightarrow> q \<noteq> [] \<Longrightarrow> walk (VDict d) p = Inr x \<Longrightarrow> \<not> is_dict x \<Longrightarrow>
   set_nested_value (p @ q) v d = (d, Some TypeError)"
proof (induction p arbitrary: d)
  case Nil
  then show ?case by simp
next
  case (Cons k p)
  from Cons.prems(2) obtain k' ks where q: "q = k' # ks" by (cases q) auto
  from Cons.prems(3) obtain y where y: "map_of d k = Some y" and wy: "walk y p = Inr x"
    by (auto split: option.splits)
  show ?case
  proof (cases "p = []")
    case True
    with wy have "y = x" by simp
    with y Cons.prems(4) True q show ?thesis by (cases x) auto
  next
    case False
    then obtain k2 p2 where p: "p = k2 # p2" by (cases p) auto
    have "is_dict y"
    proof (rule ccontr)
      assume "\<not> is_dict y"
      then have "walk y p = Inl TypeError" using False by (rule walk_non_dict)
      with wy show False by simp
    qed
    then obtain sub where sub: "y = VDict sub" by (cases y) auto
    from wy sub have "walk (VDict sub) p = Inr x" by simp
    from Cons.IH[OF False Cons.prems(2) this Cons.prems(4)]
    have "set_nested_value (p @ q) v sub = (sub, Some TypeError)" .
    moreover have "AList.update k (VDict sub) d = d"
      using y sub by (simp add: update_triv)
    ultimately show ?thesis using y sub p by simp
  qed
qed

lemma blocked_path_rejects:
  assumes "blocked_path ks d"
  shows "set_nested_value ks v d = (d, Some TypeError)"
proof -
  from assms obtain n x where n: "1 \<le> n" "n < length ks"
    and w: "walk (VDict d) (take n ks) = Inr x" and x: "\<not> is_dict x"
    unfolding blocked_path_iff by blast
  have "take n ks \<noteq> []" "drop n ks \<noteq> []" using n by auto
  from set_nested_value_blocked_prefix[OF this w x] show ?thesis by simp
qed

lemma blocked_path_missing: "map_of d k = None \<Longrightarrow> \<not> blocked_path (k # ks) d"
  by (auto simp: blocked_path_iff take_Cons')

lemma blocked_path_scalar:
  "map_of d k = Some x \<Longrightarrow> \<not> is_dict x \<Longrightarrow> blocked_path (k # k' # ks) d"
  unfolding blocked_path_iff by (rule exI[of _ 1], rule exI[of _ x]) simp

lemma blocked_path_dict:
  assumes "map_of d k = Some (VDict sub)"
  shows "blocked_path (k # k' # ks) d \<longleftrightarrow> blocked_path (k' # ks) sub"
proof
  assume "blocked_path (k # k' # ks) d"
  then obtain n x where n: "1 \<le> n" "n < length (k # k' # ks)"
    and w: "walk (VDict d) (take n (k # k' # ks)) = Inr x" and x: "\<not> is_dict x"
    unfolding blocked_path_iff by blast
  from n obtain m where m: "n = Suc m" by (cases n) auto
  have "m \<noteq> 0"
  proof
    assume "m = 0"
    with m w assms have "x = VDict sub" by simp
    with x show False by simp
  qed
  with m n w assms have "1 \<le> m" "m < length (k' # ks)" "walk (VDict sub) (take m (k' # ks)) = Inr x"
    by auto
  with x show "blocked_path (k' # ks) sub" unfolding blocked_path_iff by blast
next
  assume "blocked_path (k' # ks) sub"
  then obtain m x where m: "1 \<le> m" "m < length (k' # ks)"
    and w: "walk (VDict sub) (take m (k' # ks)) = Inr x" and x: "\<not> is_dict x"
    unfolding blocked_path_iff by blast
  from m w assms have "1 \<le> Suc m" "Suc m < length (k # k' # ks)"
    "walk (VDict d) (take (Suc m) (k # k' # ks)) = Inr x"
    by auto
  with x show "blocked_path (k # k' # ks) d" unfolding blocked_path_iff by blast
qed

lemma blocked_path_short: "length ks \<le> 1 \<Longrightarrow> \<not> blocked_path ks d"
  by (auto simp: blocked_path_def)

lemma set_nested_value_failure:
  "set_nested_value ks v d = (d', Some e) \<Longrightarrow> ks \<noteq> [] \<Longrightarrow>
   e = TypeError \<and> d' = d \<and> blocked_path ks d"
proof (induction ks v d arbitrary: d' e rule: set_nested_value.induct)
  case (1 v current)
  then show ?case by simp
next
  case (2 k v current)
  then show ?case by simp
next
  case (3 k k' ks v current)
  show ?case
  proof (cases "map_of current k")
    case None
    let ?c = "AList.update k (VDict []) current"
    have mc: "map_of ?c k = Some (VDict [])" by (simp add: update_conv')
    obtain sub' e' where r: "set_nested_value (k' # ks) v [] = (sub', e')"
      by (cases "set_nested_value (k' # ks) v []") auto
    have "e' = None"
    proof (cases e')
      case None then show ?thesis .
    next
      case (Some a)
      with r "3.IH"[of ?c "VDict []" "[]" sub' a] None mc
      have "blocked_path (k' # ks) []" by simp
      moreover have "\<not> blocked_path (k' # ks) []" by (rule blocked_path_missing) simp
      ultimately show ?thesis by simp
    qed
    with "3.prems" None mc r show ?thesis by simp
  next
    case (Some y)
    show ?thesis
    proof (cases "is_dict y")
      case False
      with Some "3.prems" have "d' = current \<and> e = TypeError" by (cases y) auto
      with blocked_path_scalar[OF Some False] show ?thesis by simp
    next
      case True
      then obtain sub where y: "y = VDict sub" by (cases y) auto
      obtain sub' e' where r: "set_nested_value (k' # ks) v sub = (sub', e')"
        by (cases "set_nested_value (k' # ks) v sub") auto
      with "3.prems" Some y have e': "e' = Some e" and d': "d' = AList.update k (VDict sub') current"
        by auto
      from "3.IH"[of current "VDict sub" sub sub' e] Some y r e'
      have ih: "e = TypeError \<and> sub' = sub \<and> blocked_path (k' # ks) sub" by simp
      moreover have "AList.update k (VDict sub) current = current"
        using Some y by (simp add: update_triv)
      moreover have "blocked_path (k # k' # ks) current"
        using ih blocked_path_dict[of current k sub k' ks] Some y by simp
      ultimately show ?thesis using d' by simp
    qed
  qed
qed

lemma set_nested_value_then_walk:
  "set_nested_value ks v d = (d', None) \<Longrightarrow> walk (VDict d') ks = Inr v"
proof (induction ks v d arbitrary: d' rule: set_nested_value.induct)
  case (1 v current)
  then show ?case by simp
next
  case (2 k v current)
  then show ?case by (auto simp: update_conv')
next
  case (3 k k' ks v current)
  let ?c = "if map_of current k = None then AList.update k (VDict []) current else current"
  from "3.prems" obtain sub where sub: "map_of ?c k = Some (VDict sub)"
    by (auto simp: Let_def split: option.splits pyval.splits)
  obtain sub' e' where r: "set_nested_value (k' # ks) v sub = (sub', e')"
    by (cases "set_nested_value (k' # ks) v sub") auto
  with "3.prems" sub have e': "e' = None" and d': "d' = AList.update k (VDict sub') ?c"
    by (auto simp: Let_def)
  from "3.IH"[of ?c "VDict sub" sub sub'] sub r e'
  have w: "walk (VDict sub') (k' # ks) = Inr v" by simp
  have "map_of d' k = Some (VDict sub')" using d' by (simp add: update_conv')
  then have "walk (VDict d') (k # k' # ks) = walk (VDict sub') (k' # ks)" by simp
  with w show ?case by simp
qed

lemma walk_append:
  "walk x (p @ q) = (case walk x p of Inl e \<Rightarrow> Inl e | Inr y \<Rightarrow> walk y q)"
  by (induction p arbitrary: x) (auto split: sum.splits)

lemma blocked_path_walk: 
  assumes "blocked_path ks cfg"
  shows "walk (VDict cfg) ks = Inl TypeError"
proof -
  from assms obtain n x where n: "1 \<le> n" "n < length ks"
    and w: "walk (VDict cfg) (take n ks) = Inr x" and x: "\<not> is_dict x"
    unfolding blocked_path_iff by blast
  have "drop n ks \<noteq> []" using n by simp
  with x have "walk x (drop n ks) = Inl TypeError" by (rule walk_non_dict)
  moreover have "walk (VDict cfg) ks =
      (case walk (VDict cfg) (take n ks) of Inl e \<Rightarrow> Inl e | Inr y \<Rightarrow> walk y (drop n ks))"
    using walk_append[of "VDict cfg" "take n ks" "drop n ks"] by simp
  ultimately show ?thesis using w by simp
qed

lemma blocked_path_unfold:
  "blocked_path (k # k' # ks) d =
     (case map_of d k of
        None \<Rightarrow> False
      | Some x \<Rightarrow> (case x of VDict sub \<Rightarrow> blocked_path (k' # ks) sub | _ \<Rightarrow> True))"
proof (cases "map_of d k")
  case None
  then show ?thesis using blocked_path_missing[of d k "k' # ks"] by simp
next
  case (Some x)
  show ?thesis
  proof (cases "is_dict x")
    case True
    then obtain sub where "x = VDict sub" by (cases x) auto
    with Some blocked_path_dict[of d k sub k' ks] show ?thesis by simp
  next
    case False
    with Some blocked_path_scalar[of d k x k' ks] show ?thesis by (cases x) auto
  qed
qed

lemma blocked_path_single: "blocked_path [k] d = False"
  by (simp add: blocked_path_short)

section \<open>Reading and writing through the store\<close>

text \<open>
  Claim C6. For every tree, every key string and every default, \<^verbatim>\<open>get\<close> returns a value
  and raises nothing. Whenever the walk along the split key fails, the value returned is
  the default: a segment that does not exist is the KeyError, and a path blocked by a
  value that is not a mapping is the TypeError. The empty key is the one-segment path of
  the empty string.
\<close>

theorem get_never_raises:
  "(\<exists>v. get cfg key d = Inr v)
   \<and> (\<forall>e. walk (VDict cfg) (split_dot key) = Inl e \<longrightarrow> get cfg key d = Inr d)
   \<and> (blocked_path (split_dot key) cfg \<longrightarrow> get cfg key d = Inr d)"
proof (intro conjI allI impI)
  show "\<exists>v. get cfg key d = Inr v" by (simp add: get_by_walk)
next
  fix e assume "walk (VDict cfg) (split_dot key) = Inl e"
  then show "get cfg key d = Inr d" by (simp add: get_by_walk)
next
  assume "blocked_path (split_dot key) cfg"
  then have "walk (VDict cfg) (split_dot key) = Inl TypeError" by (rule blocked_path_walk)
  then show "get cfg key d = Inr d" by (simp add: get_by_walk)
qed

text \<open>
  The three cases on the tree \<^verbatim>\<open>{mqtt: {host: h}}\<close>: the empty key, a missing segment and a
  path through the string at \<^verbatim>\<open>mqtt.host\<close>.
\<close>

theorem get_never_raises_witness:
  "walk (VDict [(''mqtt'', VDict [(''host'', VStr ''h'')])]) (split_dot []) = Inl KeyError
   \<and> get [(''mqtt'', VDict [(''host'', VStr ''h'')])] [] (VInt 7) = Inr (VInt 7)
   \<and> walk (VDict [(''mqtt'', VDict [(''host'', VStr ''h'')])]) (split_dot ''mqtt.port'') = Inl KeyError
   \<and> get [(''mqtt'', VDict [(''host'', VStr ''h'')])] ''mqtt.port'' (VInt 7) = Inr (VInt 7)
   \<and> blocked_path (split_dot ''mqtt.host.sub'') [(''mqtt'', VDict [(''host'', VStr ''h'')])]
   \<and> get [(''mqtt'', VDict [(''host'', VStr ''h'')])] ''mqtt.host.sub'' (VInt 7) = Inr (VInt 7)"
proof -
  let ?cfg = "[(''mqtt'', VDict [(''host'', VStr ''h'')])]"
  have a: "walk (VDict ?cfg) (split_dot []) = Inl KeyError" by simp
  have b: "walk (VDict ?cfg) (split_dot ''mqtt.port'') = Inl KeyError" by simp
  have c: "blocked_path (split_dot ''mqtt.host.sub'') ?cfg"
    by (simp add: blocked_path_unfold)
  note t = get_never_raises[of ?cfg _ "VInt 7"]
  from t[of "[]", THEN conjunct2, THEN conjunct1, rule_format, OF a]
  have a': "get ?cfg [] (VInt 7) = Inr (VInt 7)" .
  from t[of "''mqtt.port''", THEN conjunct2, THEN conjunct1, rule_format, OF b]
  have b': "get ?cfg ''mqtt.port'' (VInt 7) = Inr (VInt 7)" .
  from t[of "''mqtt.host.sub''", THEN conjunct2, THEN conjunct2, rule_format, OF c]
  have c': "get ?cfg ''mqtt.host.sub'' (VInt 7) = Inr (VInt 7)" .
  show ?thesis by (intro conjI a a' b b' c c')
qed



text \<open>
  Claim C10. When the path is blocked by an existing value that is not a mapping,
  \<^verbatim>\<open>_set_nested_value\<close> and \<^verbatim>\<open>set\<close> raise TypeError and the tree is exactly the tree before
  the call: nothing was created on the way.
\<close>

theorem set_through_scalar_rejected:
  "(blocked_path ks cfg \<longrightarrow> set_nested_value ks v cfg = (cfg, Some TypeError))
   \<and> (blocked_path (split_dot key) (config s) \<longrightarrow> store_set key v s = (s, Some TypeError))"
proof (intro conjI impI)
  assume "blocked_path ks cfg"
  then show "set_nested_value ks v cfg = (cfg, Some TypeError)" by (rule blocked_path_rejects)
next
  assume "blocked_path (split_dot key) (config s)"
  then have "set_nested_value (split_dot key) v (config s) = (config s, Some TypeError)"
    by (rule blocked_path_rejects)
  then have "set_value key v (config s) = (config s, Some TypeError)"
    by (simp add: set_value_def)
  then show "store_set key v s = (s, Some TypeError)" by (simp add: store_set_def)
qed

text \<open>The write of \<^verbatim>\<open>mqtt.host.sub\<close> when \<^verbatim>\<open>mqtt.host\<close> is a string.\<close>

theorem set_through_scalar_rejected_witness:
  "blocked_path (split_dot ''mqtt.host.sub'')
     (config \<lparr>config = [(''mqtt'', VDict [(''host'', VStr ''h'')])], disk = Missing\<rparr>)
   \<and> store_set ''mqtt.host.sub'' (VInt 1)
        \<lparr>config = [(''mqtt'', VDict [(''host'', VStr ''h'')])], disk = Missing\<rparr>
       = (\<lparr>config = [(''mqtt'', VDict [(''host'', VStr ''h'')])], disk = Missing\<rparr>,
          Some TypeError)"
proof -
  let ?s = "\<lparr>config = [(''mqtt'', VDict [(''host'', VStr ''h'')])], disk = Missing\<rparr>"
  have h: "blocked_path (split_dot ''mqtt.host.sub'') (config ?s)"
    by (simp add: blocked_path_unfold)
  from set_through_scalar_rejected[of "[]" "[]" _ "''mqtt.host.sub''" ?s, THEN conjunct2, rule_format, OF h]
  have r: "store_set ''mqtt.host.sub'' (VInt 1) ?s = (?s, Some TypeError)" .
  show ?thesis by (intro conjI h r)
qed

section \<open>Properties of validation\<close>

















section \<open>Properties of coercion\<close>

lemma py_int_errors: "py_int s = Inl e \<Longrightarrow> e = ValueError"
  by (auto simp: py_int_def split: prod.splits option.splits)

lemma py_float_errors: "py_float s = Inl e \<Longrightarrow> e = ValueError"
  by (auto simp: py_float_def split: prod.splits option.splits if_splits)

lemma convert_env_value_cases:
  "convert_env_value s =
     Inr (if lower s = ''true'' then VBool True
          else if lower s = ''false'' then VBool False
          else case py_int s of
                 Inr i \<Rightarrow> VInt i
               | Inl e \<Rightarrow> (case py_float s of Inr f \<Rightarrow> VFloat f | Inl e' \<Rightarrow> VStr s))"
proof (cases "py_int s")
  case (Inr i)
  then show ?thesis by (simp add: convert_env_value_def)
next
  case (Inl e)
  then have e: "e = ValueError" by (rule py_int_errors)
  show ?thesis
  proof (cases "py_float s")
    case (Inr f)
    with Inl e show ?thesis by (simp add: convert_env_value_def)
  next
    case (Inl e')
    then have "e' = ValueError" by (rule py_float_errors)
    with Inl \<open>py_int s = Inl e\<close> e show ?thesis by (simp add: convert_env_value_def)
  qed
qed

lemma in_dropWhile: "x \<in> set xs \<Longrightarrow> \<not> P x \<Longrightarrow> x \<in> set (dropWhile P xs)"
  by (induction xs) auto

lemma in_strip: "c \<in> set s \<Longrightarrow> \<not> is_space c \<Longrightarrow> c \<in> set (strip s)"
  by (simp add: strip_def in_dropWhile)

lemma in_split_sign:
  "c \<in> set t \<Longrightarrow> c \<noteq> CHR ''-'' \<Longrightarrow> c \<noteq> CHR ''+'' \<Longrightarrow> c \<in> set (snd (split_sign t))"
  by (cases t) (auto simp: split_sign_def)

lemma digits_value_chars:
  "digits_value acc cs = Some n \<Longrightarrow> \<forall>c \<in> set cs. is_digit c \<or> c = CHR ''_''"
  by (induction acc cs rule: digits_value.induct) (auto split: if_splits list.splits)

lemma natural_chars: "natural cs = Some n \<Longrightarrow> \<forall>c \<in> set cs. is_digit c \<or> c = CHR ''_''"
  unfolding natural_def using digits_value_chars by (cases cs) (auto split: if_splits)

lemma exponent_chars: "exponent r = Some x \<Longrightarrow> \<forall>c \<in> set r. float_char c"
  by (cases r) (auto simp: exponent_def split_sign_def all_digits_def list_all_iff float_char_def
      split: if_splits)

lemma decimal_chars:
  assumes "decimal neg u = Some f"
  shows "\<forall>c \<in> set u. float_char c"
proof -
  define ip where "ip = takeWhile is_digit u"
  define r1 where "r1 = dropWhile is_digit u"
  define fp where "fp = (case r1 of [] \<Rightarrow> []
                | c # r \<Rightarrow> if c = CHR ''.'' then takeWhile is_digit r else [])"
  define r2 where "r2 = (case r1 of [] \<Rightarrow> []
                | c # r \<Rightarrow> if c = CHR ''.'' then dropWhile is_digit r else r1)"
  have u: "u = ip @ r1" by (simp add: ip_def r1_def)
  have ip: "\<forall>c \<in> set ip. float_char c"
    by (auto simp: ip_def float_char_def dest: set_takeWhileD)
  have fp: "\<forall>c \<in> set fp. float_char c"
    by (auto simp: fp_def float_char_def dest: set_takeWhileD split: list.splits if_splits)
  have r1: "set r1 \<subseteq> {CHR ''.''} \<union> set fp \<union> set r2"
  proof (cases r1)
    case Nil
    then show ?thesis by simp
  next
    case (Cons c r)
    have "r = takeWhile is_digit r @ dropWhile is_digit r" by simp
    then have "set r = set (takeWhile is_digit r) \<union> set (dropWhile is_digit r)"
      by (metis set_append)
    with Cons show ?thesis by (auto simp: fp_def r2_def)
  qed
  from assms have d:
    "(case r2 of
        [] \<Rightarrow> Some (FDec neg (digits_nat (ip @ fp)) (- int (length fp)))
      | c # r3 \<Rightarrow>
          if c = CHR ''e'' \<or> c = CHR ''E'' then
            (case exponent r3 of
               None \<Rightarrow> None
             | Some x \<Rightarrow> Some (FDec neg (digits_nat (ip @ fp)) (x - int (length fp))))
          else None) = Some f"
    unfolding decimal_def Let_def ip_def[symmetric] r1_def[symmetric]
    unfolding fp_def[symmetric] r2_def[symmetric]
    by (simp split: if_splits)
  have r2: "\<forall>c \<in> set r2. float_char c"
  proof (cases r2)
    case Nil
    then show ?thesis by simp
  next
    case (Cons c r3)
    with d have c: "c = CHR ''e'' \<or> c = CHR ''E''" and "exponent r3 \<noteq> None"
      by (auto split: if_splits option.splits)
    then obtain x where "exponent r3 = Some x" by blast
    then have "\<forall>c \<in> set r3. float_char c" by (rule exponent_chars)
    with c Cons show ?thesis by (auto simp: float_char_def)
  qed
  have "float_char (CHR ''.'')" by (simp add: float_char_def)
  with u ip fp r1 r2 show ?thesis by auto
qed


lemma comma_in_lower: "CHR '','' \<in> set s \<Longrightarrow> CHR '','' \<in> set (lower s)"
proof -
  assume "CHR '','' \<in> set s"
  then have "lower_char (CHR '','') \<in> set (lower s)" by (simp add: lower_def)
  then show ?thesis by (simp add: lower_char_def)
qed

lemma comma_py_int:
  assumes "CHR '','' \<in> set s"
  shows "py_int s = Inl ValueError"
proof -
  have "\<not> is_space (CHR '','')" by (simp add: is_space_def)
  with assms have "CHR '','' \<in> set (strip s)" by (rule in_strip)
  then have body: "CHR '','' \<in> set (snd (split_sign (strip s)))" by (rule in_split_sign) simp_all
  have "natural (snd (split_sign (strip s))) = None"
  proof (cases "natural (snd (split_sign (strip s)))")
    case None then show ?thesis .
  next
    case (Some n)
    from natural_chars[OF this] body have "is_digit (CHR '','') \<or> CHR '','' = CHR ''_''" by blast
    then show ?thesis by (simp add: is_digit_def)
  qed
  then show ?thesis by (cases "split_sign (strip s)") (simp add: py_int_def)
qed

lemma comma_py_float:
  assumes "CHR '','' \<in> set s"
  shows "py_float s = Inl ValueError"
proof (cases "underscores_ok (CHR 0x00) s")
  case False
  then show ?thesis by (simp add: py_float_def)
next
  case True
  let ?t = "strip (filter (\<lambda>c. c \<noteq> CHR ''_'') s)"
  let ?u = "snd (split_sign ?t)"
  have "\<not> is_space (CHR '','')" by (simp add: is_space_def)
  moreover from assms have "CHR '','' \<in> set (filter (\<lambda>c. c \<noteq> CHR ''_'') s)" by simp
  ultimately have "CHR '','' \<in> set ?t" by (simp add: in_strip)
  then have u: "CHR '','' \<in> set ?u" by (rule in_split_sign) simp_all
  then have lu: "CHR '','' \<in> set (lower ?u)" by (rule comma_in_lower)
  have n1: "lower ?u \<noteq> ''inf''" using lu by auto
  have n2: "lower ?u \<noteq> ''infinity''" using lu by auto
  have n3: "lower ?u \<noteq> ''nan''" using lu by auto
  have "decimal (fst (split_sign ?t)) ?u = None"
  proof (cases "decimal (fst (split_sign ?t)) ?u")
    case None then show ?thesis .
  next
    case (Some f)
    from decimal_chars[OF this] u have "float_char (CHR '','')" by blast
    then show ?thesis by (simp add: float_char_def is_digit_def)
  qed
  with True n1 n2 n3 show ?thesis
    by (cases "split_sign ?t") (simp add: py_float_def)
qed

lemma comma_convert:
  assumes "CHR '','' \<in> set s"
  shows "convert_env_value s = Inr (VStr s)"
proof -
  from assms have lu: "CHR '','' \<in> set (lower s)" by (rule comma_in_lower)
  have "lower s \<noteq> ''true''" using lu by auto
  moreover have "lower s \<noteq> ''false''" using lu by auto
  ultimately show ?thesis
    using comma_py_int[OF assms] comma_py_float[OF assms]
    by (simp add: convert_env_value_cases)
qed

text \<open>
  Claim C4. \<^verbatim>\<open>_convert_env_value\<close> returns a value for every string and raises nothing. A
  string that is \<^verbatim>\<open>true\<close> or \<^verbatim>\<open>false\<close> in any case gives the boolean; otherwise a string
  that \<^verbatim>\<open>int\<close> accepts gives the integer; otherwise a string that \<^verbatim>\<open>float\<close> accepts gives
  the float; otherwise the string itself comes back unchanged. A string with a comma in
  it, the thousands separator or the decimal comma of a locale, is never a number.
\<close>

theorem convert_env_value_precedence:
  "(\<exists>v. convert_env_value s = Inr v)
   \<and> (lower s = ''true'' \<longrightarrow> convert_env_value s = Inr (VBool True))
   \<and> (lower s = ''false'' \<longrightarrow> convert_env_value s = Inr (VBool False))
   \<and> (lower s \<noteq> ''true'' \<and> lower s \<noteq> ''false'' \<longrightarrow>
        (\<forall>i. py_int s = Inr i \<longrightarrow> convert_env_value s = Inr (VInt i))
      \<and> (\<forall>f. (\<forall>i. py_int s \<noteq> Inr i) \<and> py_float s = Inr f
             \<longrightarrow> convert_env_value s = Inr (VFloat f))
      \<and> ((\<forall>i. py_int s \<noteq> Inr i) \<and> (\<forall>f. py_float s \<noteq> Inr f)
             \<longrightarrow> convert_env_value s = Inr (VStr s)))
   \<and> (CHR '','' \<in> set s \<longrightarrow> convert_env_value s = Inr (VStr s))"
proof (intro conjI impI allI)
  show "\<exists>v. convert_env_value s = Inr v" by (simp add: convert_env_value_cases)
next
  assume "lower s = ''true''"
  then show "convert_env_value s = Inr (VBool True)" by (simp add: convert_env_value_cases)
next
  assume "lower s = ''false''"
  then show "convert_env_value s = Inr (VBool False)" by (simp add: convert_env_value_cases)
next
  fix i assume "lower s \<noteq> ''true'' \<and> lower s \<noteq> ''false''" "py_int s = Inr i"
  then show "convert_env_value s = Inr (VInt i)" by (simp add: convert_env_value_cases)
next
  fix f assume "lower s \<noteq> ''true'' \<and> lower s \<noteq> ''false''"
    and "(\<forall>i. py_int s \<noteq> Inr i) \<and> py_float s = Inr f"
  then show "convert_env_value s = Inr (VFloat f)"
    by (cases "py_int s") (simp_all add: convert_env_value_cases)
next
  assume "lower s \<noteq> ''true'' \<and> lower s \<noteq> ''false''"
    and "(\<forall>i. py_int s \<noteq> Inr i) \<and> (\<forall>f. py_float s \<noteq> Inr f)"
  then show "convert_env_value s = Inr (VStr s)"
    by (cases "py_int s"; cases "py_float s") (simp_all add: convert_env_value_cases)
next
  assume "CHR '','' \<in> set s"
  then show "convert_env_value s = Inr (VStr s)" by (rule comma_convert)
qed

lemmas coercion_eval =
  lower_def lower_char_def py_int_def py_float_def strip_def is_space_def split_sign_def
  natural_def is_digit_def digit_val_def decimal_def exponent_def all_digits_def digits_nat_def

text \<open>One string for each branch, and \<^verbatim>\<open>1,000\<close>.\<close>

theorem convert_env_value_precedence_witness:
  "convert_env_value ''TRUE'' = Inr (VBool True)
   \<and> convert_env_value ''False'' = Inr (VBool False)
   \<and> convert_env_value ''8883'' = Inr (VInt 8883)
   \<and> convert_env_value ''1.5'' = Inr (VFloat (FDec False 15 (- 1)))
   \<and> convert_env_value ''localhost'' = Inr (VStr ''localhost'')
   \<and> convert_env_value ''1,000'' = Inr (VStr ''1,000'')"
proof -
  have a: "lower ''TRUE'' = ''true''" by (simp add: lower_def lower_char_def)
  have b: "lower ''False'' = ''false''" by (simp add: lower_def lower_char_def)
  have c0: "lower ''8883'' \<noteq> ''true'' \<and> lower ''8883'' \<noteq> ''false''"
    by (simp add: lower_def lower_char_def)
  have c: "py_int ''8883'' = Inr 8883" by (simp add: coercion_eval)
  have d0: "lower ''1.5'' \<noteq> ''true'' \<and> lower ''1.5'' \<noteq> ''false''"
    by (simp add: lower_def lower_char_def)
  have d: "(\<forall>i. py_int ''1.5'' \<noteq> Inr i) \<and> py_float ''1.5'' = Inr (FDec False 15 (- 1))"
    by (simp add: coercion_eval)
  have e0: "lower ''localhost'' \<noteq> ''true'' \<and> lower ''localhost'' \<noteq> ''false''"
    by (simp add: lower_def lower_char_def)
  have e: "(\<forall>i. py_int ''localhost'' \<noteq> Inr i) \<and> (\<forall>f. py_float ''localhost'' \<noteq> Inr f)"
    by (simp add: coercion_eval)
  have f: "CHR '','' \<in> set ''1,000''" by simp
  note t = convert_env_value_precedence
  from t[of "''TRUE''", THEN conjunct2, THEN conjunct1, rule_format, OF a]
  have 1: "convert_env_value ''TRUE'' = Inr (VBool True)" .
  from t[of "''False''", THEN conjunct2, THEN conjunct2, THEN conjunct1, rule_format, OF b]
  have 2: "convert_env_value ''False'' = Inr (VBool False)" .
  note r = t[THEN conjunct2, THEN conjunct2, THEN conjunct2, THEN conjunct1, rule_format]
  from r[of "''8883''", OF c0, THEN conjunct1, rule_format, OF c]
  have 3: "convert_env_value ''8883'' = Inr (VInt 8883)" .
  from r[of "''1.5''", OF d0, THEN conjunct2, THEN conjunct1, rule_format, OF d]
  have 4: "convert_env_value ''1.5'' = Inr (VFloat (FDec False 15 (- 1)))" .
  from r[of "''localhost''", OF e0, THEN conjunct2, THEN conjunct2, rule_format, OF e]
  have 5: "convert_env_value ''localhost'' = Inr (VStr ''localhost'')" .
  from t[of "''1,000''", THEN conjunct2, THEN conjunct2, THEN conjunct2, THEN conjunct2,
      rule_format, OF f]
  have 6: "convert_env_value ''1,000'' = Inr (VStr ''1,000'')" .
  show ?thesis by (intro conjI 1 2 3 4 5 6)
qed

section \<open>Properties of source resolution\<close>

lemma set_nested_value_preserves:
  "diverge p q \<Longrightarrow> walk (VDict d) p = Inr x \<Longrightarrow>
   walk (VDict (fst (set_nested_value q v d))) p = Inr x"
proof (induction q v d arbitrary: p x rule: set_nested_value.induct)
  case (1 v current)
  then show ?case by simp
next
  case (2 k v current)
  then obtain a as where p: "p = a # as" by (cases p) auto
  with "2.prems" have "a \<noteq> k" by simp
  with "2.prems"(2) p show ?case by (simp add: update_conv')
next
  case (3 k k' ks v current)
  then obtain a as where p: "p = a # as" by (cases p) auto
  let ?c = "if map_of current k = None then AList.update k (VDict []) current else current"
  show ?case
  proof (cases "a = k")
    case False
    have "map_of (fst (set_nested_value (k # k' # ks) v current)) a = map_of current a"
      using False
      by (auto simp: Let_def update_conv' split: option.splits pyval.splits prod.splits)
    with "3.prems"(2) p show ?thesis by (simp del: set_nested_value.simps)
  next
    case True
    with "3.prems"(1) p have dv: "diverge as (k' # ks)" by simp
    then have "as \<noteq> []" by (cases as) auto
    from "3.prems"(2) p True obtain y where y: "map_of current k = Some y" and wy: "walk y as = Inr x"
      by (auto split: option.splits)
    have "is_dict y"
    proof (rule ccontr)
      assume "\<not> is_dict y"
      then have "walk y as = Inl TypeError" using \<open>as \<noteq> []\<close> by (rule walk_non_dict)
      with wy show False by simp
    qed
    then obtain sub where sub: "y = VDict sub" by (cases y) auto
    obtain sub' e' where r: "set_nested_value (k' # ks) v sub = (sub', e')"
      by (cases "set_nested_value (k' # ks) v sub") auto
    from y sub have c: "?c = current" by simp
    from "3.IH"[of ?c "VDict sub" sub as x] c y sub dv wy r
    have "walk (VDict sub') as = Inr x" by simp
    moreover have "fst (set_nested_value (k # k' # ks) v current) = AList.update k (VDict sub') current"
      using y sub r by simp
    ultimately show ?thesis using p True by (simp add: update_conv' del: set_nested_value.simps)
  qed
qed

lemma apply_overrides_preserves:
  "\<forall>m \<in> set ms. getenv e (fst m) \<noteq> None \<longrightarrow> diverge p (snd m) \<Longrightarrow>
   walk (VDict cfg) p = Inr x \<Longrightarrow>
   walk (VDict (fst (apply_overrides ms e cfg))) p = Inr x"
proof (induction ms arbitrary: cfg)
  case Nil
  then show ?case by simp
next
  case (Cons m ms)
  obtain ev q where m: "m = (ev, q)" by (cases m)
  show ?case
  proof (cases "getenv e ev")
    case None
    with Cons m show ?thesis by simp
  next
    case (Some s)
    with Cons.prems m have dv: "diverge p q" by simp
    obtain y where y: "convert_env_value s = Inr y"
      using convert_env_value_cases[of s] by simp
    obtain cfg' r where w: "set_nested_value q y cfg = (cfg', r)"
      by (cases "set_nested_value q y cfg") auto
    from set_nested_value_preserves[OF dv Cons.prems(2), of y] w
    have keep: "walk (VDict cfg') p = Inr x" by simp
    show ?thesis
    proof (cases r)
      case None
      from Cons.IH[of cfg'] Cons.prems(1) keep
      have "walk (VDict (fst (apply_overrides ms e cfg'))) p = Inr x" by simp
      with m Some y w None show ?thesis by simp
    next
      case (Some err)
      with m \<open>getenv e ev = Some s\<close> y w keep show ?thesis by simp
    qed
  qed
qed

lemma apply_overrides_written:
  "apply_overrides ms e cfg = (cfg', None) \<Longrightarrow> independent ms \<Longrightarrow> (ev, p) \<in> set ms \<Longrightarrow>
   getenv e ev = Some s \<Longrightarrow> convert_env_value s = Inr x \<Longrightarrow>
   walk (VDict cfg') p = Inr x"
proof (induction ms arbitrary: cfg)
  case Nil
  then show ?case by simp
next
  case (Cons m ms)
  obtain ev' q where m: "m = (ev', q)" by (cases m)
  from Cons.prems(2) have ind: "independent ms"
    and dv: "\<forall>m' \<in> set ms. diverge q (snd m')" using m by auto
  show ?case
  proof (cases "getenv e ev'")
    case None
    with Cons.prems m have "apply_overrides ms e cfg = (cfg', None)" "(ev, p) \<in> set ms"
      by auto
    from Cons.IH[OF this(1) ind this(2) Cons.prems(4,5)] show ?thesis .
  next
    case (Some s')
    obtain y where y: "convert_env_value s' = Inr y"
      using convert_env_value_cases[of s'] by simp
    obtain c1 r where w: "set_nested_value q y cfg = (c1, r)"
      by (cases "set_nested_value q y cfg") auto
    from Cons.prems(1) m Some y w have r: "r = None" and rest: "apply_overrides ms e c1 = (cfg', None)"
      by (auto split: option.splits)
    show ?thesis
    proof (cases "(ev, p) \<in> set ms")
      case True
      from Cons.IH[OF rest ind True Cons.prems(4,5)] show ?thesis .
    next
      case False
      with Cons.prems(3) m have eq: "ev = ev'" "p = q" by auto
      with Some Cons.prems(4,5) y have "y = x" by simp
      with w r eq have "walk (VDict c1) p = Inr x"
        using set_nested_value_then_walk[of q y cfg c1] by simp
      moreover have "\<forall>m' \<in> set ms. getenv e (fst m') \<noteq> None \<longrightarrow> diverge p (snd m')"
        using dv eq by simp
      ultimately have "walk (VDict (fst (apply_overrides ms e c1))) p = Inr x"
        using apply_overrides_preserves[of ms e p c1 x] by simp
      with rest show ?thesis by simp
    qed
  qed
qed

lemma independent_env_mappings: "independent env_mappings"
  by (simp add: env_mappings_def)

lemma split_dot_dotted_env_mappings: "\<forall>m \<in> set env_mappings. split_dot (dotted (snd m)) = snd m"
  by (simp add: env_mappings_def)

lemma set_nested_value_blocked_same:
  "diverge p q \<Longrightarrow> set_nested_value q v d = (d', None) \<Longrightarrow>
   blocked_path p d' = blocked_path p d"
proof (induction q v d arbitrary: p d' rule: set_nested_value.induct)
  case (1 v current)
  then show ?case by simp
next
  case (2 k v current)
  then obtain a as where p: "p = a # as" by (cases p) auto
  with "2.prems" have ne: "a \<noteq> k" and d': "d' = AList.update k v current" by auto
  show ?case
  proof (cases as)
    case Nil
    with p show ?thesis by (simp add: blocked_path_single)
  next
    case (Cons a' as')
    with p ne d' show ?thesis by (simp add: blocked_path_unfold update_conv')
  qed
next
  case (3 k k' ks v current)
  then obtain a as where p: "p = a # as" by (cases p) auto
  let ?c = "if map_of current k = None then AList.update k (VDict []) current else current"
  from "3.prems"(2) obtain sub where sub: "map_of ?c k = Some (VDict sub)"
    by (auto simp: Let_def split: option.splits pyval.splits)
  obtain sub' e' where r: "set_nested_value (k' # ks) v sub = (sub', e')"
    by (cases "set_nested_value (k' # ks) v sub") auto
  with "3.prems"(2) sub have e': "e' = None" and d': "d' = AList.update k (VDict sub') ?c"
    by (auto simp: Let_def)
  show ?case
  proof (cases as)
    case Nil
    with p show ?thesis by (simp add: blocked_path_single)
  next
    case (Cons a' as')
    show ?thesis
    proof (cases "a = k")
      case False
      then have "map_of d' a = map_of current a" using d' by (simp add: update_conv')
      with p Cons show ?thesis by (simp add: blocked_path_unfold)
    next
      case True
      with "3.prems"(1) p have dv: "diverge as (k' # ks)" by simp
      from "3.IH"[of ?c "VDict sub" sub as sub'] sub dv r e'
      have ih: "blocked_path as sub' = blocked_path as sub" by simp
      have new: "blocked_path p d' = blocked_path as sub'"
        using p Cons True d' by (simp add: blocked_path_unfold update_conv')
      have old: "blocked_path p current = blocked_path as sub"
      proof (cases "map_of current k")
        case None
        with sub have "sub = []" by (simp add: update_conv')
        moreover have "\<not> blocked_path as []"
          using Cons blocked_path_missing[of "[]" a' as'] by simp
        moreover have "\<not> blocked_path p current"
          using None p True blocked_path_missing[of current k as] by simp
        ultimately show ?thesis by simp
      next
        case (Some y)
        with sub have "y = VDict sub" by simp
        with Some p Cons True show ?thesis by (simp add: blocked_path_unfold)
      qed
      from new old ih show ?thesis by simp
    qed
  qed
qed

lemma apply_overrides_result:
  "independent ms \<Longrightarrow> \<forall>m \<in> set ms. snd m \<noteq> [] \<Longrightarrow>
   snd (apply_overrides ms e cfg) =
     (if \<exists>m \<in> set ms. getenv e (fst m) \<noteq> None \<and> blocked_path (snd m) cfg
      then Some TypeError else None)"
proof (induction ms arbitrary: cfg)
  case Nil
  then show ?case by simp
next
  case (Cons m ms)
  obtain ev q where m: "m = (ev, q)" by (cases m)
  from Cons.prems m have ind: "independent ms" and ne: "\<forall>m \<in> set ms. snd m \<noteq> []"
    and q: "q \<noteq> []" and dv: "\<forall>m' \<in> set ms. diverge (snd m') q" by auto
  note ih = Cons.IH[OF ind ne]
  show ?case
  proof (cases "getenv e ev")
    case None
    with m ih[of cfg] show ?thesis by simp
  next
    case (Some s)
    obtain y where y: "convert_env_value s = Inr y"
      using convert_env_value_cases[of s] by simp
    obtain c1 r where w: "set_nested_value q y cfg = (c1, r)"
      by (cases "set_nested_value q y cfg") auto
    show ?thesis
    proof (cases r)
      case (Some err)
      with w q have "err = TypeError \<and> blocked_path q cfg"
        using set_nested_value_failure[of q y cfg c1 err] by simp
      with m \<open>getenv e ev = Some s\<close> y w Some show ?thesis by auto
    next
      case None
      have nb: "\<not> blocked_path q cfg"
      proof
        assume "blocked_path q cfg"
        then have "set_nested_value q y cfg = (cfg, Some TypeError)" by (rule blocked_path_rejects)
        with w None show False by simp
      qed
      have same: "\<forall>m' \<in> set ms. blocked_path (snd m') c1 = blocked_path (snd m') cfg"
        using dv w None set_nested_value_blocked_same[of _ q y cfg c1] by blast
      have "snd (apply_overrides (m # ms) e cfg) = snd (apply_overrides ms e c1)"
        using m \<open>getenv e ev = Some s\<close> y w None by simp
      also have "\<dots> = (if \<exists>m \<in> set ms. getenv e (fst m) \<noteq> None \<and> blocked_path (snd m) c1
                        then Some TypeError else None)" by (rule ih)
      also have "\<dots> = (if \<exists>m \<in> set (m # ms). getenv e (fst m) \<noteq> None \<and> blocked_path (snd m) cfg
                        then Some TypeError else None)"
        using same nb m by auto
      finally show ?thesis .
    qed
  qed
qed

lemma nonempty_env_mappings: "\<forall>m \<in> set env_mappings. snd m \<noteq> []"
  by (simp add: env_mappings_def)


lemma map_of_fill_missing:
  "map_of (fill_missing ds cfg) k =
     (case map_of cfg k of Some v \<Rightarrow> Some v | None \<Rightarrow> map_of ds k)"
proof (induction ds arbitrary: cfg)
  case Nil
  then show ?case by (simp split: option.splits)
next
  case (Cons a ds)
  obtain key v where a: "a = (key, v)" by (cases a)
  show ?case unfolding a
    by (simp add: Cons.IH update_conv' split: option.splits)
qed

lemma walk_fill_missing:
  assumes "walk (VDict cfg) p = Inr x" and "p \<noteq> []"
  shows "walk (VDict (fill_missing ds cfg)) p = Inr x"
proof -
  from assms(2) obtain k ks where p: "p = k # ks" by (cases p) auto
  with assms(1) obtain y where y: "map_of cfg k = Some y" by (auto split: option.splits)
  then have "map_of (fill_missing ds cfg) k = Some y" by (simp add: map_of_fill_missing)
  with assms(1) p y show ?thesis by simp
qed

lemma apply_overrides_unset:
  "\<forall>m \<in> set ms. getenv e (fst m) = None \<Longrightarrow> apply_overrides ms e cfg = (cfg, None)"
proof (induction ms)
  case Nil
  then show ?case by simp
next
  case (Cons m ms)
  obtain ev q where "m = (ev, q)" by (cases m)
  with Cons show ?case by simp
qed

lemma walk_h_Imm:
  "walk_h h (Imm v) ks = (case walk v ks of Inl e \<Rightarrow> Inl e | Inr x \<Rightarrow> Inr (Imm x))"
  by (induction ks arbitrary: v) (auto split: sum.splits)

lemma get_h_Imm:
  "root g = Imm v \<Longrightarrow>
   get_h g key d = Inr (Imm (case walk v (split_dot key) of Inr x \<Rightarrow> x | Inl e \<Rightarrow> d))"
proof (cases "walk v (split_dot key)")
  case (Inl e)
  assume r: "root g = Imm v"
  from Inl have "e = KeyError \<or> e = TypeError" by (rule walk_errors)
  with Inl r show ?thesis by (auto simp: get_h_def walk_h_Imm)
next
  case (Inr x)
  assume "root g = Imm v"
  with Inr show ?thesis by (simp add: get_h_def walk_h_Imm)
qed

lemma set_nested_value_h_dict:
  "root g = Imm (VDict d) \<Longrightarrow>
   set_nested_value_h p v g =
     (g\<lparr>root := Imm (VDict (fst (set_nested_value p v d)))\<rparr>, snd (set_nested_value p v d))"
  by (simp add: set_nested_value_h_def split: prod.splits)

lemma set_nested_value_h_scalar:
  "root g = Imm x \<Longrightarrow> \<not> is_dict x \<Longrightarrow> p \<noteq> [] \<Longrightarrow>
   set_nested_value_h p v g = (g, Some TypeError)"
  by (cases x) (simp_all add: set_nested_value_h_def)

lemma apply_overrides_h_dict:
  "root g = Imm (VDict d) \<Longrightarrow>
   apply_overrides_h ms e g =
     (g\<lparr>root := Imm (VDict (fst (apply_overrides ms e d)))\<rparr>, snd (apply_overrides ms e d))"
proof (induction ms arbitrary: g d)
  case Nil
  then show ?case by simp
next
  case (Cons m ms)
  obtain ev q where m: "m = (ev, q)" by (cases m)
  show ?case
  proof (cases "getenv e ev")
    case None
    with Cons m show ?thesis by simp
  next
    case (Some s)
    obtain y where y: "convert_env_value s = Inr y"
      using convert_env_value_cases[of s] by simp
    obtain d1 r where w: "set_nested_value q y d = (d1, r)"
      by (cases "set_nested_value q y d") auto
    let ?g1 = "g\<lparr>root := Imm (VDict d1)\<rparr>"
    from w Cons.prems have sh: "set_nested_value_h q y g = (?g1, r)"
      by (simp add: set_nested_value_h_dict)
    show ?thesis
    proof (cases r)
      case None
      have "root ?g1 = Imm (VDict d1)" by simp
      from Cons.IH[OF this] m Some y w sh None show ?thesis by simp
    next
      case (Some err)
      with m \<open>getenv e ev = Some s\<close> y w sh show ?thesis by simp
    qed
  qed
qed

lemma apply_overrides_h_scalar:
  "root g = Imm x \<Longrightarrow> \<not> is_dict x \<Longrightarrow> \<forall>m \<in> set ms. snd m \<noteq> [] \<Longrightarrow>
   apply_overrides_h ms e g =
     (g, if \<exists>m \<in> set ms. getenv e (fst m) \<noteq> None then Some TypeError else None)"
proof (induction ms)
  case Nil
  then show ?case by simp
next
  case (Cons m ms)
  obtain ev q where m: "m = (ev, q)" by (cases m)
  with Cons.prems have q: "q \<noteq> []" by simp
  show ?case
  proof (cases "getenv e ev")
    case None
    with Cons m show ?thesis by simp
  next
    case (Some s)
    obtain y where y: "convert_env_value s = Inr y"
      using convert_env_value_cases[of s] by simp
    from Cons.prems(1,2) q have "set_nested_value_h q y g = (g, Some TypeError)"
      by (rule set_nested_value_h_scalar)
    with m Some y show ?thesis by simp
  qed
qed

lemma apply_defaults_dict:
  "root g = Imm (VDict d) \<Longrightarrow>
   apply_defaults ds g = (g\<lparr>root := Imm (VDict (fill_missing ds d))\<rparr>, None)"
proof (induction ds arbitrary: g d)
  case Nil
  then show ?case by simp
next
  case (Cons a ds)
  obtain key v where a: "a = (key, v)" by (cases a)
  show ?case
  proof (cases "map_of d key = None")
    case True
    let ?g1 = "g\<lparr>root := Imm (VDict (AList.update key v d))\<rparr>"
    have "root ?g1 = Imm (VDict (AList.update key v d))" by simp
    from Cons.IH[OF this] Cons.prems True a show ?thesis by (simp add: setitem_root_def)
  next
    case False
    with Cons.IH[OF Cons.prems] Cons.prems a show ?thesis by auto
  qed
qed

lemma apply_defaults_ref:
  "root g = Ref a \<Longrightarrow>
   \<exists>h'. apply_defaults ds g = (g\<lparr>heap := h'\<rparr>, None)
        \<and> cell_of h' a = fill_missing (map (\<lambda>p. (fst p, Imm (snd p))) ds) (cell_of (heap g) a)"
proof (induction ds arbitrary: g)
  case Nil
  have "g\<lparr>heap := heap g\<rparr> = g" by simp
  then show ?case by (metis apply_defaults.simps(1) fill_missing.simps(1) list.simps(8))
next
  case (Cons b ds)
  obtain key v where b: "b = (key, v)" by (cases b)
  show ?case
  proof (cases "map_of (cell_of (heap g) a) key = None")
    case False
    with Cons.IH[OF Cons.prems] Cons.prems b show ?thesis by auto
  next
    case True
    let ?c = "AList.update key (Imm v) (cell_of (heap g) a)"
    let ?g1 = "g\<lparr>heap := AList.update a ?c (heap g)\<rparr>"
    have r1: "root ?g1 = Ref a" using Cons.prems by simp
    have c1: "cell_of (heap ?g1) a = ?c" by (simp add: cell_of_def update_conv')
    from Cons.IH[OF r1] obtain h' where
      h': "apply_defaults ds ?g1 = (?g1\<lparr>heap := h'\<rparr>, None)"
      "cell_of h' a = fill_missing (map (\<lambda>p. (fst p, Imm (snd p))) ds) (cell_of (heap ?g1) a)"
      by blast
    have "apply_defaults (b # ds) g = (g\<lparr>heap := h'\<rparr>, None)"
      using Cons.prems True b h'(1) by (simp add: setitem_root_def)
    moreover have "cell_of h' a =
        fill_missing (map (\<lambda>p. (fst p, Imm (snd p))) (b # ds)) (cell_of (heap g) a)"
      using h'(2) c1 True b by simp
    ultimately show ?thesis by blast
  qed
qed

lemma load_config_mapping:
  assumes "mapping_of f = Some t"
  shows "\<exists>h. load_config e f g0 =
           (\<lparr>heap = h, root = Imm (VDict (fst (apply_overrides env_mappings e t)))\<rparr>,
            snd (apply_overrides env_mappings e t))"
proof (cases f)
  case Missing
  with assms have t: "t = []" by (simp add: mapping_of_def)
  have "root empty_graph = Imm (VDict [])" by (simp add: empty_graph_def)
  from apply_overrides_h_dict[OF this, of env_mappings e] Missing t
  show ?thesis by (simp add: load_config_def apply_env_overrides_def empty_graph_def)
next
  case Unreadable
  with assms show ?thesis by (simp add: mapping_of_def)
next
  case Undecodable
  with assms show ?thesis by (simp add: mapping_of_def)
next
  case Malformed
  with assms show ?thesis by (simp add: mapping_of_def)
next
  case (Document doc)
  with assms obtain v where v: "root doc = Imm v"
    by (cases "root doc") (simp_all add: mapping_of_def)
  show ?thesis
  proof (cases "falsy v")
    case True
    with assms Document v have t: "t = []" by (simp add: mapping_of_def)
    have "root empty_graph = Imm (VDict [])" by (simp add: empty_graph_def)
    from apply_overrides_h_dict[OF this, of env_mappings e] Document t True v
    show ?thesis
      by (simp add: load_config_def apply_env_overrides_def empty_graph_def falsy_root_def)
  next
    case False
    with assms Document v have d: "v = VDict t" by (cases v) (simp_all add: mapping_of_def)
    with v have r: "root doc = Imm (VDict t)" by simp
    have "doc\<lparr>root := Imm (VDict (fst (apply_overrides env_mappings e t)))\<rparr>
        = \<lparr>heap = heap doc, root = Imm (VDict (fst (apply_overrides env_mappings e t)))\<rparr>"
      by simp
    with apply_overrides_h_dict[OF r, of env_mappings e] Document False v
    show ?thesis
      by (simp add: load_config_def apply_env_overrides_def falsy_root_def)
  qed
qed

lemma load_config_scalar:
  assumes "f = Document doc" and "root doc = Imm v" and "\<not> falsy v" and "\<not> is_dict v"
  shows "load_config e f g0 =
           (doc, if \<exists>m \<in> set env_mappings. getenv e (fst m) \<noteq> None then Some TypeError else None)"
  using assms apply_overrides_h_scalar[OF assms(2,4) nonempty_env_mappings, of e]
  by (simp add: load_config_def apply_env_overrides_def falsy_root_def)

lemma alias_free_cases:
  assumes "alias_free f"
  obtains "f = Unreadable \<or> f = Undecodable \<or> f = Malformed" | t where "mapping_of f = Some t"
  | doc v where "f = Document doc" "root doc = Imm v" "\<not> falsy v" "\<not> is_dict v"
proof (cases f)
  case Missing
  then have "mapping_of f = Some []" by (simp add: mapping_of_def)
  then show ?thesis by (rule that(2))
next
  case Unreadable
  then show ?thesis using that(1) by blast
next
  case Undecodable
  then show ?thesis using that(1) by blast
next
  case Malformed
  then show ?thesis using that(1) by blast
next
  case (Document doc)
  with assms obtain v where v: "root doc = Imm v"
    by (cases "root doc") (simp_all add: alias_free_def)
  show ?thesis
  proof (cases "falsy v")
    case True
    with Document v have "mapping_of f = Some []" by (simp add: mapping_of_def)
    then show ?thesis by (rule that(2))
  next
    case False
    show ?thesis
    proof (cases "is_dict v")
      case True
      then obtain t where "v = VDict t" by (cases v) auto
      with Document v False have "mapping_of f = Some t" by (simp add: mapping_of_def)
      then show ?thesis by (rule that(2))
    next
      case nd: False
      from Document v False nd show ?thesis by (rule that(3))
    qed
  qed
qed

lemma load_config_written:
  assumes "alias_free f" and "load_config e f g0 = (g, None)"
    and "(ev, p) \<in> set env_mappings" and "getenv e ev = Some x"
    and "convert_env_value x = Inr y"
  shows "\<exists>t. root g = Imm (VDict t) \<and> walk (VDict t) p = Inr y"
using assms(1)
proof (cases rule: alias_free_cases)
  case 1
  with assms(2) show ?thesis by (auto simp: load_config_def)
next
  case (2 t)
  from load_config_mapping[OF this, of e g0] assms(2)
  have r: "root g = Imm (VDict (fst (apply_overrides env_mappings e t)))"
    and ok: "snd (apply_overrides env_mappings e t) = None" by auto
  then have "apply_overrides env_mappings e t = (fst (apply_overrides env_mappings e t), None)"
    by (simp add: prod_eq_iff)
  from apply_overrides_written[OF this independent_env_mappings assms(3,4,5)] r
  show ?thesis by blast
next
  case (3 doc v)
  from assms(3,4) have "\<exists>m \<in> set env_mappings. getenv e (fst m) \<noteq> None" by force
  with load_config_scalar[OF 3, of e g0] assms(2) show ?thesis by simp
qed

lemma init_Inr:
  "init prof f e = Inr g \<longleftrightarrow>
     (\<exists>g1. load_config e f empty_graph = (g1, None) \<and> apply_defaults (defaults prof) g1 = (g, None))"
  by (auto simp: init_def split: prod.splits option.splits)

lemma get_h_dotted:
  assumes "(ev, p) \<in> set env_mappings" and "root g = Imm (VDict t)" and "walk (VDict t) p = Inr y"
  shows "get_h g (dotted p) d = Inr (Imm y)"
proof -
  from assms(1) split_dot_dotted_env_mappings have "split_dot (dotted p) = p" by force
  with assms(2,3) show ?thesis by (simp add: get_h_Imm)
qed

lemma mapping_of_scalar:
  "f = Document doc \<Longrightarrow> root doc = Imm v \<Longrightarrow> \<not> falsy v \<Longrightarrow> \<not> is_dict v \<Longrightarrow>
   mapping_of f = None"
  by (cases v) (simp_all add: mapping_of_def)

lemma mapping_of_failing:
  "f = Unreadable \<or> f = Undecodable \<or> f = Malformed \<Longrightarrow> mapping_of f = None"
  by (auto simp: mapping_of_def)

lemma load_config_failing:
  "f = Unreadable \<or> f = Undecodable \<or> f = Malformed \<Longrightarrow> snd (load_config e f g) \<noteq> None"
  by (auto simp: load_config_def)

lemma load_config_mapping_ok:
  assumes "mapping_of f = Some t"
  shows "(snd (load_config e f g0) = None)
       = (\<not> (\<exists>m \<in> set env_mappings. getenv e (fst m) \<noteq> None \<and> blocked_path (snd m) t))"
proof -
  from load_config_mapping[OF assms, of e g0]
  have "snd (load_config e f g0) = snd (apply_overrides env_mappings e t)" by auto
  then show ?thesis
    using apply_overrides_result[OF independent_env_mappings nonempty_env_mappings, of e t]
    by simp
qed

lemma init_mapping:
  assumes "mapping_of f = Some t"
  shows "\<exists>h. init prof f e =
     (if \<exists>m \<in> set env_mappings. getenv e (fst m) \<noteq> None \<and> blocked_path (snd m) t
      then Inl TypeError
      else Inr \<lparr>heap = h, root = Imm (VDict (fill_missing (defaults prof)
                                   (fst (apply_overrides env_mappings e t))))\<rparr>)"
proof -
  let ?t' = "fst (apply_overrides env_mappings e t)"
  from load_config_mapping[OF assms, of e empty_graph] obtain h where
    l: "load_config e f empty_graph =
          (\<lparr>heap = h, root = Imm (VDict ?t')\<rparr>, snd (apply_overrides env_mappings e t))"
    by blast
  have r: "root \<lparr>heap = h, root = Imm (VDict ?t')\<rparr> = Imm (VDict ?t')" by simp
  note d = apply_defaults_dict[OF r, of "defaults prof"]
  note res = apply_overrides_result[OF independent_env_mappings nonempty_env_mappings, of e t]
  show ?thesis
  proof (cases "\<exists>m \<in> set env_mappings. getenv e (fst m) \<noteq> None \<and> blocked_path (snd m) t")
    case True
    with res have "snd (apply_overrides env_mappings e t) = Some TypeError" by simp
    with l True show ?thesis by (simp add: init_def)
  next
    case False
    with res have "snd (apply_overrides env_mappings e t) = None" by simp
    with l d False show ?thesis by (simp add: init_def)
  qed
qed

lemma init_failing:
  "init prof Unreadable e = Inl OSError" "init prof Undecodable e = Inl ValueError"
  "init prof Malformed e = Inl YAMLError"
  by (simp_all add: init_def load_config_def)

lemma set_nested_value_h_ref:
  "root g = Ref a \<Longrightarrow> root (fst (set_nested_value_h p v g)) = Ref a"
  by (simp add: set_nested_value_h_def split: prod.splits)

lemma apply_overrides_h_ref:
  "root g = Ref a \<Longrightarrow> root (fst (apply_overrides_h ms e g)) = Ref a"
proof (induction ms arbitrary: g)
  case Nil
  then show ?case by simp
next
  case (Cons m ms)
  obtain ev q where m: "m = (ev, q)" by (cases m)
  show ?case
  proof (cases "getenv e ev")
    case None
    with Cons m show ?thesis by simp
  next
    case (Some s)
    obtain y where y: "convert_env_value s = Inr y"
      using convert_env_value_cases[of s] by simp
    obtain g1 r where w: "set_nested_value_h q y g = (g1, r)"
      by (cases "set_nested_value_h q y g") auto
    from set_nested_value_h_ref[OF Cons.prems, of q y] w have r1: "root g1 = Ref a" by simp
    show ?thesis
    proof (cases r)
      case None
      with Cons.IH[OF r1] m Some y w show ?thesis by simp
    next
      case (Some err)
      with r1 m \<open>getenv e ev = Some s\<close> y w show ?thesis by simp
    qed
  qed
qed

lemma apply_overrides_h_mapping_root:
  assumes "mapping_root g"
  shows "mapping_root (fst (apply_overrides_h ms e g))"
proof (cases "root g")
  case (Ref a)
  from apply_overrides_h_ref[OF this, of ms e] show ?thesis by (simp add: mapping_root_def)
next
  case (Imm v)
  with assms obtain d where "v = VDict d" by (cases v) (auto simp: mapping_root_def)
  with Imm have "root g = Imm (VDict d)" by simp
  from apply_overrides_h_dict[OF this, of ms e] show ?thesis by (simp add: mapping_root_def)
qed

lemma load_config_mapping_root:
  assumes "mapping_document f" and "load_config e f g0 = (g, None)"
  shows "mapping_root g"
proof -
  have e: "mapping_root empty_graph" by (simp add: mapping_root_def empty_graph_def)
  show ?thesis
  proof (cases f)
    case Missing
    with assms(2) have "g = fst (apply_overrides_h env_mappings e empty_graph)"
      by (simp add: load_config_def apply_env_overrides_def)
    with apply_overrides_h_mapping_root[OF e] show ?thesis by simp
  next
    case Unreadable
    with assms(1) show ?thesis by (simp add: mapping_document_def)
  next
    case Undecodable
    with assms(1) show ?thesis by (simp add: mapping_document_def)
  next
    case Malformed
    with assms(1) show ?thesis by (simp add: mapping_document_def)
  next
    case (Document doc)
    let ?s = "if falsy_root doc then empty_graph else doc"
    from Document assms(1) e have "mapping_root ?s" by (auto simp: mapping_document_def)
    from apply_overrides_h_mapping_root[OF this, of env_mappings e] Document assms(2)
    show ?thesis by (simp add: load_config_def apply_env_overrides_def)
  qed
qed

lemma map_of_map_Imm: "map_of (map (\<lambda>p. (fst p, Imm (snd p))) ds) k = map_option Imm (map_of ds k)"
  by (induction ds) auto

lemma apply_defaults_mapping_root:
  assumes "mapping_root g0"
  shows "\<exists>g. apply_defaults ds g0 = (g, None)
           \<and> (\<forall>k. top_lookup g k =
                 (case top_lookup g0 k of Some v \<Rightarrow> Some v | None \<Rightarrow> map_option Imm (map_of ds k)))"
proof (cases "root g0")
  case (Ref a)
  from apply_defaults_ref[OF this, of ds] obtain h' where
    h: "apply_defaults ds g0 = (g0\<lparr>heap := h'\<rparr>, None)"
    "cell_of h' a = fill_missing (map (\<lambda>p. (fst p, Imm (snd p))) ds) (cell_of (heap g0) a)"
    by blast
  have "\<forall>k. top_lookup (g0\<lparr>heap := h'\<rparr>) k =
           (case top_lookup g0 k of Some v \<Rightarrow> Some v | None \<Rightarrow> map_option Imm (map_of ds k))"
    using Ref h(2)
    by (simp add: top_lookup_def map_of_fill_missing map_of_map_Imm split: option.splits)
  with h(1) show ?thesis by blast
next
  case (Imm v)
  with assms obtain d where "v = VDict d" by (cases v) (auto simp: mapping_root_def)
  with Imm have r: "root g0 = Imm (VDict d)" by simp
  have "\<forall>k. top_lookup (g0\<lparr>root := Imm (VDict (fill_missing ds d))\<rparr>) k =
           (case top_lookup g0 k of Some v \<Rightarrow> Some v | None \<Rightarrow> map_option Imm (map_of ds k))"
    using r by (simp add: top_lookup_def map_of_fill_missing split: option.splits)
  with apply_defaults_dict[OF r, of ds] show ?thesis by blast
qed

lemma not_in_Imm: "not_in h (Imm v) key = not_in [] (Imm v) key"
  by (cases v) simp_all

lemma not_in_errors: "not_in h x key = Inl err \<Longrightarrow> err = TypeError"
  by (cases "(h, x, key)" rule: not_in.cases) auto

lemma apply_defaults_scalar_result:
  assumes "root g = Imm v" and "\<not> is_dict v"
  shows "apply_defaults ds g =
           (g, if \<exists>p \<in> set ds. default_raises v (fst p) then Some TypeError else None)"
proof (induction ds)
  case Nil
  then show ?case by simp
next
  case (Cons a ds)
  obtain key x where a: "a = (key, x)" by (cases a)
  from assms have s: "setitem_root key x g = (g, Some TypeError)"
    by (cases v) (simp_all add: setitem_root_def)
  have n: "not_in (heap g) (root g) key = not_in [] (Imm v) key"
    using assms(1) by (simp add: not_in_Imm[of "heap g"])
  show ?case
  proof (cases "not_in [] (Imm v) key")
    case (Inl err)
    then have "err = TypeError" by (rule not_in_errors)
    with Inl n a show ?thesis by (simp add: default_raises_def)
  next
    case (Inr b)
    show ?thesis
    proof (cases b)
      case True
      with Inr n a s show ?thesis by (simp add: default_raises_def)
    next
      case False
      with Inr n a Cons.IH show ?thesis by (simp add: default_raises_def)
    qed
  qed
qed

lemma not_mapping_document:
  assumes "\<not> mapping_document f" and "f = Document doc"
  obtains v where "root doc = Imm v" "\<not> falsy v" "\<not> is_dict v"
proof (cases "root doc")
  case (Ref a)
  with assms show ?thesis by (simp add: mapping_document_def mapping_root_def)
next
  case (Imm v)
  with assms have "\<not> falsy v" "\<not> is_dict v"
    by (simp_all add: mapping_document_def mapping_root_def falsy_root_def)
  with Imm show ?thesis by (rule that)
qed

lemma top_lookup_scalar: "root g = Imm v \<Longrightarrow> \<not> is_dict v \<Longrightarrow> top_lookup g k = None"
  by (cases v) (simp_all add: top_lookup_def)

















lemma map_of_filter:
  "map_of xs k = (case filter (\<lambda>p. fst p = k) xs of [] \<Rightarrow> None | p # ps \<Rightarrow> Some (snd p))"
  by (induction xs) auto

lemma map_of_sort_key: "map_of (sort_key fst xs) k = map_of xs k"
  by (simp add: map_of_filter[of "sort_key fst xs"] map_of_filter[of xs] sort_key_stable)

lemma map_of_map_snd:
  "map_of (map (\<lambda>p. (fst p, f (snd p))) xs) k = map_option f (map_of xs k)"
  by (induction xs) auto

lemma getitem_sort_keys:
  "getitem (sort_keys x) k = (case getitem x k of Inl e \<Rightarrow> Inl e | Inr y \<Rightarrow> Inr (sort_keys y))"
  by (cases x) (simp_all add: map_of_sort_key map_of_map_snd split: option.splits)

lemma walk_sort_keys:
  "walk (sort_keys x) p = (case walk x p of Inl e \<Rightarrow> Inl e | Inr y \<Rightarrow> Inr (sort_keys y))"
proof (induction p arbitrary: x)
  case Nil
  then show ?case by simp
next
  case (Cons k p)
  show ?case
  proof (cases "getitem x k")
    case (Inl e)
    then show ?thesis by (simp add: getitem_sort_keys)
  next
    case (Inr y)
    with Cons[of y] show ?thesis by (simp add: getitem_sort_keys)
  qed
qed

lemma is_dict_sort_keys: "is_dict (sort_keys x) = is_dict x"
  by (cases x) simp_all

lemma walk_sorted_tree:
  "walk (VDict (sorted_tree t)) q =
     (case walk (VDict t) q of Inl e \<Rightarrow> Inl e | Inr y \<Rightarrow> Inr (sort_keys y))"
  using walk_sort_keys[of "VDict t" q] by (simp add: sorted_tree_def)

lemma blocked_path_sorted: "blocked_path p (sorted_tree t) = blocked_path p t"
proof -
  note w = walk_sorted_tree[of t]
  have "\<And>n. (case walk (VDict (sorted_tree t)) (take n p) of
                Inr x \<Rightarrow> \<not> is_dict x | Inl e \<Rightarrow> False)
           = (case walk (VDict t) (take n p) of Inr x \<Rightarrow> \<not> is_dict x | Inl e \<Rightarrow> False)"
    by (simp add: w is_dict_sort_keys split: sum.splits)
  then show ?thesis by (simp add: blocked_path_def)
qed

lemma save_config_store:
  "save_config (graph_of s) =
     (if yaml_safe (VDict (config s))
      then Document \<lparr>heap = [], root = Imm (VDict (sorted_tree (config s)))\<rparr>
      else Malformed)"
  by (simp add: save_config_def safe_graph_def graph_of_def dump_def sorted_tree_def)

lemma mapping_of_saved:
  assumes "yaml_safe (VDict (config s))"
  shows "mapping_of (save_config (graph_of s)) = Some (sorted_tree (config s))"
proof -
  from assms have "save_config (graph_of s)
      = Document \<lparr>heap = [], root = Imm (VDict (sorted_tree (config s)))\<rparr>"
    by (simp only: save_config_store if_True)
  then show ?thesis by (simp add: mapping_of_def)
qed

lemma load_saved:
  assumes "yaml_safe (VDict (config s))"
  shows "load_config e (save_config (graph_of s)) g0 =
     (\<lparr>heap = [], root = Imm (VDict (fst (apply_overrides env_mappings e (sorted_tree (config s)))))\<rparr>,
      snd (apply_overrides env_mappings e (sorted_tree (config s))))"
proof -
  let ?t = "sorted_tree (config s)"
  let ?doc = "\<lparr>heap = [], root = Imm (VDict ?t)\<rparr>"
  have "(if falsy_root ?doc then empty_graph else ?doc) = ?doc"
    by (simp add: falsy_root_def empty_graph_def)
  moreover from assms have "save_config (graph_of s) = Document ?doc"
    by (simp only: save_config_store if_True)
  ultimately have "load_config e (save_config (graph_of s)) g0 = apply_env_overrides e ?doc"
    by (simp add: load_config_def)
  moreover have "root ?doc = Imm (VDict ?t)" by simp
  from apply_overrides_h_dict[OF this, of env_mappings e]
  have "apply_env_overrides e ?doc =
     (\<lparr>heap = [], root = Imm (VDict (fst (apply_overrides env_mappings e ?t)))\<rparr>,
      snd (apply_overrides env_mappings e ?t))"
    by (simp add: apply_env_overrides_def)
  ultimately show ?thesis by simp
qed

lemma load_unsafe:
  assumes "\<not> yaml_safe (VDict (config s))"
  shows "load_config e (save_config (graph_of s)) g0 = (g0, Some YAMLError)"
proof -
  from assms have "save_config (graph_of s) = Malformed"
    by (simp only: save_config_store if_False)
  then show ?thesis by (simp add: load_config_def)
qed

lemma saved_result:
  assumes "reload e (save_config (graph_of s)) g0 = (g', None)
         \<or> init prof (save_config (graph_of s)) e = Inr g'"
  shows "yaml_safe (VDict (config s))
       \<and> snd (apply_overrides env_mappings e (sorted_tree (config s))) = None
       \<and> (\<exists>ds. root g' = Imm (VDict (fill_missing ds
                  (fst (apply_overrides env_mappings e (sorted_tree (config s)))))))"
proof -
  let ?t = "sorted_tree (config s)"
  let ?t' = "fst (apply_overrides env_mappings e ?t)"
  from assms show ?thesis
  proof
    assume r: "reload e (save_config (graph_of s)) g0 = (g', None)"
    with load_unsafe[of s e g0] have ys: "yaml_safe (VDict (config s))"
      by (auto simp: reload_def)
    from load_saved[OF ys, of e g0] r
    have "root g' = Imm (VDict (fill_missing [] ?t'))"
      and "snd (apply_overrides env_mappings e ?t) = None"
      by (auto simp: reload_def)
    with ys show ?thesis by blast
  next
    assume "init prof (save_config (graph_of s)) e = Inr g'"
    then obtain g1 where l: "load_config e (save_config (graph_of s)) empty_graph = (g1, None)"
      and a: "apply_defaults (defaults prof) g1 = (g', None)"
      unfolding init_Inr by blast
    from l load_unsafe[of s e empty_graph] have ys: "yaml_safe (VDict (config s))" by auto
    from load_saved[OF ys, of e empty_graph] l
    have g1: "root g1 = Imm (VDict ?t')"
      and ok: "snd (apply_overrides env_mappings e ?t) = None" by auto
    from apply_defaults_dict[OF g1, of "defaults prof"] a
    have "root g' = Imm (VDict (fill_missing (defaults prof) ?t'))" by auto
    with ys ok show ?thesis by blast
  qed
qed

section \<open>Resolution, defaults, reload and save\<close>

lemmas resolve_eval =
  init_def reload_def load_config_def apply_env_overrides_def env_mappings_def getenv_def
  convert_env_value_def get_h_def set_nested_value_h_def setitem_root_def empty_graph_def
  falsy_root_def cell_of_def graph_of_def found_coerced_def
  store_get_def get_def store_set_def set_value_def

text \<open>
  Claim C1, as stated, fails: in a file where \<^verbatim>\<open>mqtt\<close> is an anchored mapping and
  \<^verbatim>\<open>dashboard\<close> an alias of it, the two keys hold one dict; with \<^verbatim>\<open>MQTT_PORT=8883\<close> and
  \<^verbatim>\<open>DASHBOARD_PORT=8080\<close> both set, the later write at \<^verbatim>\<open>dashboard.port\<close> lands in that
  dict, and \<^verbatim>\<open>get\<close> of \<^verbatim>\<open>mqtt.port\<close> is 8080 and not the coerced value of \<^verbatim>\<open>MQTT_PORT\<close>.
\<close>

theorem override_lost_through_alias:
  "init Base
     (Document \<lparr>heap = [(0, [(''port'', Imm (VInt 1883))]),
                        (1, [(''mqtt'', Ref 0), (''dashboard'', Ref 0)])],
                root = Ref 1\<rparr>)
     [(''MQTT_PORT'', ''8883''), (''DASHBOARD_PORT'', ''8080'')]
     = Inr \<lparr>heap = [(0, [(''port'', Imm (VInt 8080))]),
                     (1, [(''mqtt'', Ref 0), (''dashboard'', Ref 0)])],
            root = Ref 1\<rparr>
   \<and> get_h \<lparr>heap = [(0, [(''port'', Imm (VInt 8080))]),
                     (1, [(''mqtt'', Ref 0), (''dashboard'', Ref 0)])],
             root = Ref 1\<rparr> ''mqtt.port'' VNone = Inr (Imm (VInt 8080))
   \<and> found_coerced ''8883'' = Inr (Imm (VInt 8883))"
  by (simp add: resolve_eval coercion_eval)

text \<open>
  Claim C1, amended. For a file without aliases and every entry of the override table
  whose variable is set: when the constructor of any of the three classes returns, and
  when \<^verbatim>\<open>reload\<close> returns without an exception, \<^verbatim>\<open>get\<close> of the dotted path is the coerced value
  of the variable, whatever the file holds at that path. The constructor returns, and
  \<^verbatim>\<open>reload\<close> returns without an exception, exactly when the file resolves to a mapping (it
  is missing, or its document is false or a mapping) in which no set override variable
  has its path blocked.
\<close>

theorem env_override_precedence:
  assumes "(ev, p) \<in> set env_mappings" and "getenv e ev = Some x" and "alias_free f"
  shows "(init prof f e = Inr g \<longrightarrow> get_h g (dotted p) d = found_coerced x)
       \<and> (reload e f g0 = (g, None) \<longrightarrow> get_h g (dotted p) d = found_coerced x)
       \<and> ((\<exists>g'. init prof f e = Inr g')
            = (\<exists>t. mapping_of f = Some t
                 \<and> \<not> (\<exists>m \<in> set env_mappings. getenv e (fst m) \<noteq> None \<and> blocked_path (snd m) t)))
       \<and> ((snd (reload e f g0) = None)
            = (\<exists>t. mapping_of f = Some t
                 \<and> \<not> (\<exists>m \<in> set env_mappings. getenv e (fst m) \<noteq> None \<and> blocked_path (snd m) t)))"
proof -
  obtain y where y: "convert_env_value x = Inr y"
    using convert_env_value_cases[of x] by simp
  then have fc: "found_coerced x = Inr (Imm y)" by (simp add: found_coerced_def)
  from assms(1) nonempty_env_mappings have ne: "p \<noteq> []" by force
  from assms(1,2) have isset: "\<exists>m \<in> set env_mappings. getenv e (fst m) \<noteq> None" by force
  have 1: "get_h g (dotted p) d = found_coerced x" if "init prof f e = Inr g"
  proof -
    from that obtain g1 where l: "load_config e f empty_graph = (g1, None)"
      and a: "apply_defaults (defaults prof) g1 = (g, None)"
      unfolding init_Inr by blast
    from load_config_written[OF assms(3) l assms(1,2) y]
    obtain t where t: "root g1 = Imm (VDict t)" and w: "walk (VDict t) p = Inr y" by blast
    from apply_defaults_dict[OF t, of "defaults prof"] a
    have r: "root g = Imm (VDict (fill_missing (defaults prof) t))" by auto
    from w ne have "walk (VDict (fill_missing (defaults prof) t)) p = Inr y"
      by (rule walk_fill_missing)
    from get_h_dotted[OF assms(1) r this] fc show ?thesis by simp
  qed
  have 2: "get_h g (dotted p) d = found_coerced x" if "reload e f g0 = (g, None)"
  proof -
    from that have "load_config e f g0 = (g, None)" by (simp add: reload_def)
    from load_config_written[OF assms(3) this assms(1,2) y]
    obtain t where t: "root g = Imm (VDict t)" and w: "walk (VDict t) p = Inr y" by blast
    from get_h_dotted[OF assms(1) t w] fc show ?thesis by simp
  qed
  let ?ok = "\<exists>t. mapping_of f = Some t
      \<and> \<not> (\<exists>m \<in> set env_mappings. getenv e (fst m) \<noteq> None \<and> blocked_path (snd m) t)"
  have 3: "(\<exists>g'. init prof f e = Inr g') = ?ok"
    using assms(3)
  proof (cases rule: alias_free_cases)
    case 1
    then have "mapping_of f = None" by (rule mapping_of_failing)
    moreover from 1 have "\<not> (\<exists>g'. init prof f e = Inr g')" by (auto simp: init_failing)
    ultimately show ?thesis by simp
  next
    case (2 t)
    from init_mapping[OF 2, of prof e] 2 show ?thesis by (auto split: if_splits)
  next
    case (3 doc v)
    then have "mapping_of f = None" by (rule mapping_of_scalar)
    moreover from load_config_scalar[OF 3, of e empty_graph] isset
    have "\<not> (\<exists>g'. init prof f e = Inr g')" by (simp add: init_def)
    ultimately show ?thesis by simp
  qed
  have 4: "(snd (reload e f g0) = None) = ?ok"
    using assms(3)
  proof (cases rule: alias_free_cases)
    case 1
    then have "mapping_of f = None" by (rule mapping_of_failing)
    moreover from 1 have "snd (reload e f g0) \<noteq> None"
      unfolding reload_def by (rule load_config_failing)
    ultimately show ?thesis by simp
  next
    case (2 t)
    from load_config_mapping_ok[OF 2, of e g0] 2 show ?thesis by (simp add: reload_def)
  next
    case (3 doc v)
    then have "mapping_of f = None" by (rule mapping_of_scalar)
    moreover from load_config_scalar[OF 3, of e g0] isset
    have "snd (reload e f g0) \<noteq> None" by (simp add: reload_def)
    ultimately show ?thesis by simp
  qed
  from 1 2 3 4 show ?thesis by blast
qed

text \<open>Scenario 1 of the specification, by the constructor and by \<^verbatim>\<open>reload\<close>.\<close>

theorem env_override_precedence_witness:
  "(''MQTT_PORT'', [''mqtt'', ''port'']) \<in> set env_mappings
   \<and> getenv [(''MQTT_PORT'', ''8883'')] ''MQTT_PORT'' = Some ''8883''
   \<and> alias_free (Document \<lparr>heap = [], root = Imm (VDict
         [(''mqtt'', VDict [(''host'', VStr ''10.0.0.5''), (''port'', VInt 1883)])])\<rparr>)
   \<and> init Base (Document \<lparr>heap = [], root = Imm (VDict
         [(''mqtt'', VDict [(''host'', VStr ''10.0.0.5''), (''port'', VInt 1883)])])\<rparr>)
        [(''MQTT_PORT'', ''8883'')]
       = Inr \<lparr>heap = [], root = Imm (VDict
           [(''mqtt'', VDict [(''host'', VStr ''10.0.0.5''), (''port'', VInt 8883)])])\<rparr>
   \<and> reload [(''MQTT_PORT'', ''8883'')]
        (Document \<lparr>heap = [], root = Imm (VDict
         [(''mqtt'', VDict [(''host'', VStr ''10.0.0.5''), (''port'', VInt 1883)])])\<rparr>)
        \<lparr>heap = [], root = Imm (VDict [(''sensor_pin'', VInt 4)])\<rparr>
       = (\<lparr>heap = [], root = Imm (VDict
           [(''mqtt'', VDict [(''host'', VStr ''10.0.0.5''), (''port'', VInt 8883)])])\<rparr>, None)
   \<and> snd (reload [(''MQTT_PORT'', ''8883'')]
        (Document \<lparr>heap = [], root = Imm (VDict
         [(''mqtt'', VDict [(''host'', VStr ''10.0.0.5''), (''port'', VInt 1883)])])\<rparr>)
        \<lparr>heap = [], root = Imm (VDict [(''sensor_pin'', VInt 4)])\<rparr>) = None
   \<and> get_h \<lparr>heap = [], root = Imm (VDict
           [(''mqtt'', VDict [(''host'', VStr ''10.0.0.5''), (''port'', VInt 8883)])])\<rparr>
        ''mqtt.port'' VNone = Inr (Imm (VInt 8883))
   \<and> get_h \<lparr>heap = [], root = Imm (VDict
           [(''mqtt'', VDict [(''host'', VStr ''10.0.0.5''), (''port'', VInt 8883)])])\<rparr>
        ''mqtt.host'' VNone = Inr (Imm (VStr ''10.0.0.5''))"
proof -
  let ?t = "[(''mqtt'', VDict [(''host'', VStr ''10.0.0.5''), (''port'', VInt 1883)])]"
  let ?f = "Document \<lparr>heap = [], root = Imm (VDict ?t)\<rparr>"
  let ?e = "[(''MQTT_PORT'', ''8883'')]"
  let ?old = "\<lparr>heap = [], root = Imm (VDict [(''sensor_pin'', VInt 4)])\<rparr>"
  let ?g = "\<lparr>heap = [], root = Imm (VDict
           [(''mqtt'', VDict [(''host'', VStr ''10.0.0.5''), (''port'', VInt 8883)])])\<rparr>"
  have a: "(''MQTT_PORT'', [''mqtt'', ''port'']) \<in> set env_mappings"
    by (simp add: env_mappings_def)
  have b: "getenv ?e ''MQTT_PORT'' = Some ''8883''" by (simp add: getenv_def)
  have af: "alias_free ?f" by (simp add: alias_free_def)
  have m: "mapping_of ?f = Some ?t" by (simp add: mapping_of_def)
  have c: "init Base ?f ?e = Inr ?g" by (simp add: resolve_eval coercion_eval)
  have r: "reload ?e ?f ?old = (?g, None)" by (simp add: resolve_eval coercion_eval)
  have v: "found_coerced ''8883'' = Inr (Imm (VInt 8883))"
    by (simp add: found_coerced_def convert_env_value_def coercion_eval)
  note t = env_override_precedence[OF a b af, of Base ?g VNone ?old]
  from t[THEN conjunct1, rule_format, OF c] v
  have g1: "get_h ?g ''mqtt.port'' VNone = Inr (Imm (VInt 8883))" by simp
  from t[THEN conjunct2, THEN conjunct1, rule_format, OF r] v
  have g2: "get_h ?g ''mqtt.port'' VNone = Inr (Imm (VInt 8883))" by simp
  have nb: "\<not> (\<exists>m \<in> set env_mappings. getenv ?e (fst m) \<noteq> None \<and> blocked_path (snd m) ?t)"
    by (simp add: env_mappings_def getenv_def blocked_path_unfold blocked_path_single)
  from m nb have "\<exists>t. mapping_of ?f = Some t
      \<and> \<not> (\<exists>m \<in> set env_mappings. getenv ?e (fst m) \<noteq> None \<and> blocked_path (snd m) t)"
    by blast
  with t[THEN conjunct2, THEN conjunct2, THEN conjunct2]
  have ok: "snd (reload ?e ?f ?old) = None" by simp
  note g = conjI[OF g1 g2, THEN conjunct1]
  have h: "get_h ?g ''mqtt.host'' VNone = Inr (Imm (VStr ''10.0.0.5''))"
    by (simp add: get_h_def)
  show ?thesis by (intro conjI a b af c r ok g h)
qed

text \<open>
  Claim C2. A client store built without a file and with an empty environment holds the
  defaults, so \<^verbatim>\<open>sensor_pin\<close> is 4. After \<^verbatim>\<open>reload\<close> the tree is empty and \<^verbatim>\<open>sensor_pin\<close> reads
  as the default of \<^verbatim>\<open>get\<close>: \<^verbatim>\<open>reload\<close> does not apply the defaults that the constructor
  applies.
\<close>

theorem reload_drops_defaults:
  "init Client Missing [] = Inr \<lparr>heap = [], root = Imm (VDict DEFAULT_CLIENT_CONFIG)\<rparr>
   \<and> get_h \<lparr>heap = [], root = Imm (VDict DEFAULT_CLIENT_CONFIG)\<rparr> ''sensor_pin'' VNone
       = Inr (Imm (VInt 4))
   \<and> reload [] Missing \<lparr>heap = [], root = Imm (VDict DEFAULT_CLIENT_CONFIG)\<rparr>
       = (\<lparr>heap = [], root = Imm (VDict [])\<rparr>, None)
   \<and> get_h \<lparr>heap = [], root = Imm (VDict [])\<rparr> ''sensor_pin'' VNone = Inr (Imm VNone)"
  by (simp add: resolve_eval DEFAULT_CLIENT_CONFIG_def)

text \<open>
  Claim C3, as stated, fails. The default table of the client has the key \<^verbatim>\<open>mqtt.port\<close>;
  a file that gives \<^verbatim>\<open>mqtt\<close> with a host only leaves the store without \<^verbatim>\<open>mqtt.port\<close>, since
  the loop tests the top-level keys only. And a file whose document is a string in which
  every top-level key of the table occurs is accepted by the constructor as it is: the
  configuration is that string, and no key exists in it.
\<close>

theorem defaults_skip_nested_keys:
  "walk (VDict DEFAULT_CLIENT_CONFIG) [''mqtt'', ''port''] = Inr (VInt 8883)
   \<and> init Client
        (Document \<lparr>heap = [], root = Imm (VDict [(''mqtt'', VDict [(''host'', VStr ''10.0.0.5'')])])\<rparr>)
        []
       = Inr \<lparr>heap = [],
              root = Imm (VDict ((''mqtt'', VDict [(''host'', VStr ''10.0.0.5'')])
                          # take 4 DEFAULT_CLIENT_CONFIG @ drop 5 DEFAULT_CLIENT_CONFIG))\<rparr>
   \<and> walk_h []
        (Imm (VDict ((''mqtt'', VDict [(''host'', VStr ''10.0.0.5'')])
                          # take 4 DEFAULT_CLIENT_CONFIG @ drop 5 DEFAULT_CLIENT_CONFIG)))
        [''mqtt'', ''port''] = Inl KeyError
   \<and> init Client
        (Document \<lparr>heap = [], root = Imm (VStr
           ''client_id sensor_pin sensor_type update_interval mqtt modbus logging'')\<rparr>) []
       = Inr \<lparr>heap = [], root = Imm (VStr
           ''client_id sensor_pin sensor_type update_interval mqtt modbus logging'')\<rparr>"
  by (simp add: resolve_eval DEFAULT_CLIENT_CONFIG_def)

text \<open>
  Claim C3, amended. When the constructor returns and the file is missing or its document
  is false or a mapping, every top-level key of the default table of the class is a key of
  the configuration; a top-level key that the resolved configuration (file and
  environment) already has keeps its value, and one that it lacks has the value of the
  default table. When the constructor returns and the document is not a mapping, the
  configuration is that document, and it has no key.
\<close>

theorem defaults_fill_in:
  assumes "init prof f e = Inr g"
  shows "(mapping_document f \<longrightarrow>
           (\<exists>g0. load_config e f empty_graph = (g0, None)
              \<and> (\<forall>k \<in> fst ` set (defaults prof). top_lookup g k \<noteq> None)
              \<and> (\<forall>k v. top_lookup g0 k = Some v \<longrightarrow> top_lookup g k = Some v)
              \<and> (\<forall>k. top_lookup g0 k = None
                    \<longrightarrow> top_lookup g k = map_option Imm (map_of (defaults prof) k))))
       \<and> (\<not> mapping_document f \<longrightarrow> f = Document g \<and> (\<forall>k. top_lookup g k = None))"
proof -
  from assms obtain g0 where l: "load_config e f empty_graph = (g0, None)"
    and a: "apply_defaults (defaults prof) g0 = (g, None)"
    unfolding init_Inr by blast
  have 1: "\<exists>g0. load_config e f empty_graph = (g0, None)
              \<and> (\<forall>k \<in> fst ` set (defaults prof). top_lookup g k \<noteq> None)
              \<and> (\<forall>k v. top_lookup g0 k = Some v \<longrightarrow> top_lookup g k = Some v)
              \<and> (\<forall>k. top_lookup g0 k = None
                    \<longrightarrow> top_lookup g k = map_option Imm (map_of (defaults prof) k))"
    if "mapping_document f"
  proof -
    from that l have "mapping_root g0" by (rule load_config_mapping_root)
    from apply_defaults_mapping_root[OF this, of "defaults prof"] a
    have m: "\<And>k. top_lookup g k =
        (case top_lookup g0 k of Some v \<Rightarrow> Some v
         | None \<Rightarrow> map_option Imm (map_of (defaults prof) k))" by auto
    have "\<forall>k \<in> fst ` set (defaults prof). top_lookup g k \<noteq> None"
    proof
      fix k assume "k \<in> fst ` set (defaults prof)"
      then have "map_of (defaults prof) k \<noteq> None" by (simp add: map_of_eq_None_iff)
      then show "top_lookup g k \<noteq> None" by (simp add: m split: option.splits)
    qed
    moreover have "\<forall>k v. top_lookup g0 k = Some v \<longrightarrow> top_lookup g k = Some v"
      by (simp add: m)
    moreover have "\<forall>k. top_lookup g0 k = None
        \<longrightarrow> top_lookup g k = map_option Imm (map_of (defaults prof) k)"
      by (simp add: m)
    ultimately show ?thesis using l by blast
  qed
  have 2: "f = Document g \<and> (\<forall>k. top_lookup g k = None)" if nm: "\<not> mapping_document f"
  proof -
    from nm l obtain doc where d: "f = Document doc"
      by (cases f) (simp_all add: mapping_document_def load_config_def)
    from nm d obtain v where v: "root doc = Imm v" "\<not> falsy v" "\<not> is_dict v"
      by (rule not_mapping_document)
    from load_config_scalar[OF d v, of e empty_graph] l have "g0 = doc" by simp
    with apply_defaults_scalar_result[OF v(1,3), of "defaults prof"] a have "g = doc" by simp
    with d v top_lookup_scalar[OF v(1,3)] show ?thesis by simp
  qed
  from 1 2 show ?thesis by blast
qed

text \<open>
  A client store whose file sets \<^verbatim>\<open>sensor_pin\<close> and whose environment sets \<^verbatim>\<open>CLIENT_ID\<close>,
  and a base store whose file is the list \<^verbatim>\<open>[1, 2]\<close>.
\<close>

theorem defaults_fill_in_witness:
  "(\<exists>g. init Client (Document \<lparr>heap = [], root = Imm (VDict [(''sensor_pin'', VInt 17)])\<rparr>)
            [(''CLIENT_ID'', ''attic'')] = Inr g
       \<and> top_lookup g ''sensor_pin'' = Some (Imm (VInt 17))
       \<and> top_lookup g ''client_id'' = Some (Imm (VStr ''attic''))
       \<and> top_lookup g ''update_interval'' = Some (Imm (VInt 30))
       \<and> top_lookup g ''mqtt'' \<noteq> None)
   \<and> init Base (Document \<lparr>heap = [], root = Imm (VList [VInt 1, VInt 2])\<rparr>) []
       = Inr \<lparr>heap = [], root = Imm (VList [VInt 1, VInt 2])\<rparr>
   \<and> top_lookup \<lparr>heap = [], root = Imm (VList [VInt 1, VInt 2])\<rparr> ''mqtt'' = None"
proof -
  let ?f = "Document \<lparr>heap = [], root = Imm (VDict [(''sensor_pin'', VInt 17)])\<rparr>"
  let ?e = "[(''CLIENT_ID'', ''attic'')]"
  let ?a = "\<lparr>heap = [], root = Imm (VDict [(''sensor_pin'', VInt 17), (''client_id'', VStr ''attic'')])\<rparr>"
  let ?b = "fst (apply_defaults (defaults Client) ?a)"
  let ?l = "\<lparr>heap = [], root = Imm (VList [VInt 1, VInt 2])\<rparr>"
  have l: "load_config ?e ?f empty_graph = (?a, None)"
    by (simp add: resolve_eval coercion_eval)
  have "root ?a = Imm (VDict [(''sensor_pin'', VInt 17), (''client_id'', VStr ''attic'')])"
    by simp
  from apply_defaults_dict[OF this, of "defaults Client"]
  have "apply_defaults (defaults Client) ?a = (?b, None)" by simp
  with l have i: "init Client ?f ?e = Inr ?b" unfolding init_Inr by blast
  have md: "mapping_document ?f" by (simp add: mapping_document_def mapping_root_def)
  from defaults_fill_in[OF i, THEN conjunct1, rule_format, OF md] l
  have 1: "\<forall>k \<in> fst ` set (defaults Client). top_lookup ?b k \<noteq> None"
    and 2: "\<forall>k v. top_lookup ?a k = Some v \<longrightarrow> top_lookup ?b k = Some v"
    and 3: "\<forall>k. top_lookup ?a k = None
               \<longrightarrow> top_lookup ?b k = map_option Imm (map_of (defaults Client) k)"
    by auto
  have "top_lookup ?a ''sensor_pin'' = Some (Imm (VInt 17))"
    and "top_lookup ?a ''client_id'' = Some (Imm (VStr ''attic''))"
    by (simp_all add: top_lookup_def)
  with 2 have a: "top_lookup ?b ''sensor_pin'' = Some (Imm (VInt 17))"
    and b: "top_lookup ?b ''client_id'' = Some (Imm (VStr ''attic''))" by blast+
  have "top_lookup ?a ''update_interval'' = None" by (simp add: top_lookup_def)
  with 3 have "top_lookup ?b ''update_interval''
      = map_option Imm (map_of (defaults Client) ''update_interval'')" by blast
  then have c: "top_lookup ?b ''update_interval'' = Some (Imm (VInt 30))"
    by (simp add: DEFAULT_CLIENT_CONFIG_def)
  have "''mqtt'' \<in> fst ` set (defaults Client)" by (simp add: DEFAULT_CLIENT_CONFIG_def)
  with 1 have d: "top_lookup ?b ''mqtt'' \<noteq> None" by blast
  from i a b c d have first: "\<exists>g. init Client ?f ?e = Inr g
       \<and> top_lookup g ''sensor_pin'' = Some (Imm (VInt 17))
       \<and> top_lookup g ''client_id'' = Some (Imm (VStr ''attic''))
       \<and> top_lookup g ''update_interval'' = Some (Imm (VInt 30))
       \<and> top_lookup g ''mqtt'' \<noteq> None" by blast
  have j: "init Base (Document ?l) [] = Inr ?l" by (simp add: resolve_eval)
  have nm: "\<not> mapping_document (Document ?l)"
    by (simp add: mapping_document_def mapping_root_def falsy_root_def)
  from defaults_fill_in[OF j, THEN conjunct2, rule_format, OF nm]
  have k: "top_lookup ?l ''mqtt'' = None" by blast
  from first j k show ?thesis by blast
qed




text \<open>
  Claim C8, as stated, fails: with \<^verbatim>\<open>MQTT_PORT=1883\<close> in an unchanged environment, the value
  9999 set at \<^verbatim>\<open>mqtt.port\<close> and saved is 1883 again after \<^verbatim>\<open>reload\<close>; and a tuple set at
  \<^verbatim>\<open>tags\<close> and saved leaves a file on which \<^verbatim>\<open>reload\<close> raises.
\<close>

theorem saved_value_overridden_on_reload:
  "init Base Missing [(''MQTT_PORT'', ''1883'')]
     = Inr (graph_of \<lparr>config = [(''mqtt'', VDict [(''port'', VInt 1883)])], disk = Missing\<rparr>)
   \<and> store_set ''mqtt.port'' (VInt 9999)
        \<lparr>config = [(''mqtt'', VDict [(''port'', VInt 1883)])], disk = Missing\<rparr>
     = (\<lparr>config = [(''mqtt'', VDict [(''port'', VInt 9999)])], disk = Missing\<rparr>, None)
   \<and> store_get \<lparr>config = [(''mqtt'', VDict [(''port'', VInt 9999)])], disk = Missing\<rparr>
        ''mqtt.port'' VNone = Inr (VInt 9999)
   \<and> reload [(''MQTT_PORT'', ''1883'')]
        (save_config (graph_of
           \<lparr>config = [(''mqtt'', VDict [(''port'', VInt 9999)])], disk = Missing\<rparr>))
        (graph_of \<lparr>config = [(''mqtt'', VDict [(''port'', VInt 9999)])], disk = Missing\<rparr>)
     = (\<lparr>heap = [], root = Imm (VDict [(''mqtt'', VDict [(''port'', VInt 1883)])])\<rparr>, None)
   \<and> get_h \<lparr>heap = [], root = Imm (VDict [(''mqtt'', VDict [(''port'', VInt 1883)])])\<rparr>
        ''mqtt.port'' VNone = Inr (Imm (VInt 1883))
   \<and> store_set ''tags'' (VTuple [VStr ''a'']) \<lparr>config = [], disk = Missing\<rparr>
     = (\<lparr>config = [(''tags'', VTuple [VStr ''a''])], disk = Missing\<rparr>, None)
   \<and> reload []
        (save_config (graph_of \<lparr>config = [(''tags'', VTuple [VStr ''a''])], disk = Missing\<rparr>))
        (graph_of \<lparr>config = [(''tags'', VTuple [VStr ''a''])], disk = Missing\<rparr>)
     = (graph_of \<lparr>config = [(''tags'', VTuple [VStr ''a''])], disk = Missing\<rparr>,
        Some YAMLError)"
  by (simp add: resolve_eval coercion_eval save_config_def safe_graph_def dump_def sort_cell_def)

text \<open>
  Claim C8, amended. For a store whose mapping shares no dict: after \<^verbatim>\<open>save_config\<close>, when
  \<^verbatim>\<open>reload\<close> returns or a constructor on the same path returns, every key that was present
  and whose path diverges from the path of every set override variable is present with
  the same value, the keys of its mappings in sorted order; when no override variable is
  set and the mapping holds no tuple, \<^verbatim>\<open>reload\<close> gives the saved mapping with its keys
  sorted, and a constructor gives it with the defaults of the class filled in; at the path
  of a set override variable the value is the coerced environment value; when the
  mapping holds a tuple, \<^verbatim>\<open>reload\<close> and the constructors raise the parse error; otherwise
  they return exactly when no set override variable has its path blocked in the mapping.
\<close>

theorem save_reload_roundtrip:
  "((reload e (save_config (graph_of s)) prev = (g', None)
       \<or> init prof (save_config (graph_of s)) e = Inr g')
      \<and> (\<forall>m \<in> set env_mappings. getenv e (fst m) \<noteq> None \<longrightarrow> diverge (split_dot key) (snd m))
      \<and> walk (VDict (config s)) (split_dot key) = Inr v
     \<longrightarrow> get_h g' key d = Inr (Imm (sort_keys v)))
   \<and> ((\<forall>m \<in> set env_mappings. getenv e (fst m) = None) \<and> yaml_safe (VDict (config s))
     \<longrightarrow> reload e (save_config (graph_of s)) prev
           = (\<lparr>heap = [], root = Imm (VDict (sorted_tree (config s)))\<rparr>, None)
       \<and> init prof (save_config (graph_of s)) e
           = Inr \<lparr>heap = [],
                  root = Imm (VDict (fill_missing (defaults prof) (sorted_tree (config s))))\<rparr>)
   \<and> ((reload e (save_config (graph_of s)) prev = (g', None)
       \<or> init prof (save_config (graph_of s)) e = Inr g')
      \<and> m \<in> set env_mappings \<and> getenv e (fst m) = Some x
     \<longrightarrow> get_h g' (dotted (snd m)) d = found_coerced x)
   \<and> (\<not> yaml_safe (VDict (config s))
     \<longrightarrow> reload e (save_config (graph_of s)) prev = (prev, Some YAMLError)
       \<and> init prof (save_config (graph_of s)) e = Inl YAMLError)
   \<and> (yaml_safe (VDict (config s))
     \<longrightarrow> (snd (reload e (save_config (graph_of s)) prev) = None)
           = (\<not> (\<exists>m \<in> set env_mappings.
                    getenv e (fst m) \<noteq> None \<and> blocked_path (snd m) (config s)))
       \<and> (\<exists>g1. init prof (save_config (graph_of s)) e = Inr g1)
           = (\<not> (\<exists>m \<in> set env_mappings.
                    getenv e (fst m) \<noteq> None \<and> blocked_path (snd m) (config s))))"
proof -
  let ?f = "save_config (graph_of s)"
  let ?t = "sorted_tree (config s)"
  let ?t' = "fst (apply_overrides env_mappings e ?t)"
  have keep: "get_h g' key d = Inr (Imm (sort_keys v))"
    if a: "(reload e ?f prev = (g', None) \<or> init prof ?f e = Inr g')
      \<and> (\<forall>m \<in> set env_mappings. getenv e (fst m) \<noteq> None \<longrightarrow> diverge (split_dot key) (snd m))
      \<and> walk (VDict (config s)) (split_dot key) = Inr v"
  proof -
    from a saved_result[of e s prev g' prof] obtain ds where
      r: "root g' = Imm (VDict (fill_missing ds ?t'))" by blast
    from a have "walk (VDict ?t) (split_dot key) = Inr (sort_keys v)"
      by (simp add: walk_sorted_tree)
    with a have "walk (VDict ?t') (split_dot key) = Inr (sort_keys v)"
      using apply_overrides_preserves[of env_mappings e "split_dot key" ?t "sort_keys v"]
      by blast
    then have "walk (VDict (fill_missing ds ?t')) (split_dot key) = Inr (sort_keys v)"
      using split_dot_nonempty by (rule walk_fill_missing)
    with r show ?thesis by (simp add: get_h_Imm)
  qed
  have unset: "reload e ?f prev = (\<lparr>heap = [], root = Imm (VDict ?t)\<rparr>, None)
       \<and> init prof ?f e = Inr \<lparr>heap = [], root = Imm (VDict (fill_missing (defaults prof) ?t))\<rparr>"
    if a: "(\<forall>m \<in> set env_mappings. getenv e (fst m) = None) \<and> yaml_safe (VDict (config s))"
  proof -
    from a have u: "apply_overrides env_mappings e ?t = (?t, None)"
      by (simp add: apply_overrides_unset)
    from a have ys: "yaml_safe (VDict (config s))" by simp
    from load_saved[OF ys, of e prev] u
    have 1: "reload e ?f prev = (\<lparr>heap = [], root = Imm (VDict ?t)\<rparr>, None)"
      by (simp add: reload_def)
    from load_saved[OF ys, of e empty_graph] u
    have l: "load_config e ?f empty_graph = (\<lparr>heap = [], root = Imm (VDict ?t)\<rparr>, None)"
      by simp
    have "root \<lparr>heap = [], root = Imm (VDict ?t)\<rparr> = Imm (VDict ?t)" by simp
    from apply_defaults_dict[OF this, of "defaults prof"] l
    have "init prof ?f e = Inr \<lparr>heap = [], root = Imm (VDict (fill_missing (defaults prof) ?t))\<rparr>"
      by (simp add: init_def)
    with 1 show ?thesis by simp
  qed
  have over: "get_h g' (dotted (snd m)) d = found_coerced x"
    if a: "(reload e ?f prev = (g', None) \<or> init prof ?f e = Inr g')
        \<and> m \<in> set env_mappings \<and> getenv e (fst m) = Some x"
  proof -
    obtain y where y: "convert_env_value x = Inr y"
      using convert_env_value_cases[of x] by simp
    obtain ev p where m: "m = (ev, p)" by (cases m)
    from a m have mem: "(ev, p) \<in> set env_mappings" and ge: "getenv e ev = Some x" by simp_all
    from mem nonempty_env_mappings have ne: "p \<noteq> []" by force
    from a saved_result[of e s prev g' prof] obtain ds where
      ok: "snd (apply_overrides env_mappings e ?t) = None"
      and r: "root g' = Imm (VDict (fill_missing ds ?t'))" by blast
    from ok have "apply_overrides env_mappings e ?t = (?t', None)" by (simp add: prod_eq_iff)
    from apply_overrides_written[OF this independent_env_mappings mem ge y]
    have "walk (VDict ?t') p = Inr y" .
    then have "walk (VDict (fill_missing ds ?t')) p = Inr y" using ne by (rule walk_fill_missing)
    from get_h_dotted[OF mem r this] y m show ?thesis by (simp add: found_coerced_def)
  qed
  have unsafe: "reload e ?f prev = (prev, Some YAMLError) \<and> init prof ?f e = Inl YAMLError"
    if "\<not> yaml_safe (VDict (config s))"
    using load_unsafe[OF that, of e prev] load_unsafe[OF that, of e empty_graph]
    by (simp add: reload_def init_def)
  have returns: "(snd (reload e ?f prev) = None)
           = (\<not> (\<exists>m \<in> set env_mappings.
                    getenv e (fst m) \<noteq> None \<and> blocked_path (snd m) (config s)))
       \<and> (\<exists>g1. init prof ?f e = Inr g1)
           = (\<not> (\<exists>m \<in> set env_mappings.
                    getenv e (fst m) \<noteq> None \<and> blocked_path (snd m) (config s)))"
    if ys: "yaml_safe (VDict (config s))"
  proof -
    note mo = mapping_of_saved[OF ys]
    from load_config_mapping_ok[OF mo, of e prev]
    have 1: "(snd (reload e ?f prev) = None)
           = (\<not> (\<exists>m \<in> set env_mappings.
                    getenv e (fst m) \<noteq> None \<and> blocked_path (snd m) (config s)))"
      by (simp add: reload_def blocked_path_sorted)
    from init_mapping[OF mo, of prof e]
    have 2: "(\<exists>g1. init prof ?f e = Inr g1)
           = (\<not> (\<exists>m \<in> set env_mappings.
                    getenv e (fst m) \<noteq> None \<and> blocked_path (snd m) (config s)))"
      by (auto simp: blocked_path_sorted split: if_splits)
    from 1 2 show ?thesis by simp
  qed
  from keep unset over unsafe returns show ?thesis by blast
qed

text \<open>
  The mapping \<^verbatim>\<open>{sensor_pin: 4, mqtt: {port: 9999, host: h}}\<close> saved and loaded again with
  \<^verbatim>\<open>MQTT_PORT=1883\<close> and with no override variable, and a mapping with a tuple.
\<close>

theorem save_reload_roundtrip_witness:
  "reload [(''MQTT_PORT'', ''1883'')]
        (save_config (graph_of
           \<lparr>config = [(''sensor_pin'', VInt 4),
                       (''mqtt'', VDict [(''port'', VInt 9999), (''host'', VStr ''h'')])],
            disk = Missing\<rparr>))
        (graph_of
           \<lparr>config = [(''sensor_pin'', VInt 4),
                       (''mqtt'', VDict [(''port'', VInt 9999), (''host'', VStr ''h'')])],
            disk = Missing\<rparr>)
     = (\<lparr>heap = [],
         root = Imm (VDict [(''mqtt'', VDict [(''host'', VStr ''h''), (''port'', VInt 1883)]),
                            (''sensor_pin'', VInt 4)])\<rparr>, None)
   \<and> get_h \<lparr>heap = [],
         root = Imm (VDict [(''mqtt'', VDict [(''host'', VStr ''h''), (''port'', VInt 1883)]),
                            (''sensor_pin'', VInt 4)])\<rparr>
        ''mqtt.host'' VNone = Inr (Imm (VStr ''h''))
   \<and> get_h \<lparr>heap = [],
         root = Imm (VDict [(''mqtt'', VDict [(''host'', VStr ''h''), (''port'', VInt 1883)]),
                            (''sensor_pin'', VInt 4)])\<rparr>
        ''mqtt.port'' VNone = Inr (Imm (VInt 1883))
   \<and> reload [(''HOME'', ''/root'')]
        (save_config (graph_of
           \<lparr>config = [(''sensor_pin'', VInt 4),
                       (''mqtt'', VDict [(''port'', VInt 9999), (''host'', VStr ''h'')])],
            disk = Missing\<rparr>))
        empty_graph
     = (\<lparr>heap = [],
         root = Imm (VDict [(''mqtt'', VDict [(''host'', VStr ''h''), (''port'', VInt 9999)]),
                            (''sensor_pin'', VInt 4)])\<rparr>, None)
   \<and> init Base
        (save_config (graph_of
           \<lparr>config = [(''sensor_pin'', VInt 4),
                       (''mqtt'', VDict [(''port'', VInt 9999), (''host'', VStr ''h'')])],
            disk = Missing\<rparr>))
        [(''HOME'', ''/root'')]
     = Inr \<lparr>heap = [],
         root = Imm (VDict [(''mqtt'', VDict [(''host'', VStr ''h''), (''port'', VInt 9999)]),
                            (''sensor_pin'', VInt 4)])\<rparr>
   \<and> init Client
        (save_config (graph_of \<lparr>config = [(''tags'', VTuple [VStr ''a''])], disk = Missing\<rparr>))
        [] = Inl YAMLError
   \<and> (\<exists>g1. init Client
        (save_config (graph_of
           \<lparr>config = [(''sensor_pin'', VInt 4),
                       (''mqtt'', VDict [(''port'', VInt 9999), (''host'', VStr ''h'')])],
            disk = Missing\<rparr>))
        [(''MQTT_PORT'', ''1883'')] = Inr g1)"
proof -
  let ?e = "[(''MQTT_PORT'', ''1883'')]"
  let ?u = "[(''HOME'', ''/root'')]"
  let ?t = "[(''sensor_pin'', VInt 4),
             (''mqtt'', VDict [(''port'', VInt 9999), (''host'', VStr ''h'')])]"
  let ?s = "\<lparr>config = ?t, disk = Missing\<rparr>"
  let ?x = "\<lparr>config = [(''tags'', VTuple [VStr ''a''])], disk = Missing\<rparr>"
  let ?r = "\<lparr>heap = [],
         root = Imm (VDict [(''mqtt'', VDict [(''host'', VStr ''h''), (''port'', VInt 1883)]),
                            (''sensor_pin'', VInt 4)])\<rparr>"
  let ?k = "\<lparr>heap = [],
         root = Imm (VDict [(''mqtt'', VDict [(''host'', VStr ''h''), (''port'', VInt 9999)]),
                            (''sensor_pin'', VInt 4)])\<rparr>"
  note t = save_reload_roundtrip
  have ys: "yaml_safe (VDict (config ?s))" by simp
  have st: "sorted_tree (config ?s)
      = [(''mqtt'', VDict [(''host'', VStr ''h''), (''port'', VInt 9999)]),
         (''sensor_pin'', VInt 4)]"
    by (simp add: sorted_tree_def)
  have a: "reload ?e (save_config (graph_of ?s)) (graph_of ?s) = (?r, None)"
    by (simp add: resolve_eval coercion_eval save_config_def safe_graph_def dump_def)
  have b: "\<forall>m \<in> set env_mappings. getenv ?e (fst m) \<noteq> None
      \<longrightarrow> diverge (split_dot ''mqtt.host'') (snd m)"
    by (simp add: env_mappings_def getenv_def)
  have c: "walk (VDict (config ?s)) (split_dot ''mqtt.host'') = Inr (VStr ''h'')" by simp
  from t[where e = ?e and s = ?s and g' = ?r and prev = "graph_of ?s" and key = "''mqtt.host''"
      and d = VNone and prof = Base, THEN conjunct1, rule_format,
      OF conjI[OF disjI1[OF a] conjI[OF b c]]]
  have 1: "get_h ?r ''mqtt.host'' VNone = Inr (Imm (VStr ''h''))" by simp
  have m: "(''MQTT_PORT'', [''mqtt'', ''port'']) \<in> set env_mappings" by (simp add: env_mappings_def)
  have g: "getenv ?e (fst (''MQTT_PORT'', [''mqtt'', ''port''])) = Some ''1883''"
    by (simp add: getenv_def)
  have v: "found_coerced ''1883'' = Inr (Imm (VInt 1883))"
    by (simp add: found_coerced_def convert_env_value_def coercion_eval)
  from t[where e = ?e and s = ?s and g' = ?r and prev = "graph_of ?s" and d = VNone
      and prof = Base, THEN conjunct2, THEN conjunct2, THEN conjunct1, rule_format,
      OF conjI[OF disjI1[OF a] conjI[OF m g]]] v
  have 2: "get_h ?r ''mqtt.port'' VNone = Inr (Imm (VInt 1883))" by simp
  have u: "\<forall>m \<in> set env_mappings. getenv ?u (fst m) = None"
    by (simp add: env_mappings_def getenv_def)
  from t[where e = ?u and s = ?s and prev = empty_graph and prof = Base,
      THEN conjunct2, THEN conjunct1, THEN mp, OF conjI[OF u ys]] st
  have 3: "reload ?u (save_config (graph_of ?s)) empty_graph = (?k, None)"
    and 4: "init Base (save_config (graph_of ?s)) ?u = Inr ?k" by simp_all
  have nys: "\<not> yaml_safe (VDict (config ?x))" by simp
  from t[where e = "[]" and s = ?x and prof = Client, THEN conjunct2, THEN conjunct2,
      THEN conjunct2, THEN conjunct1, THEN mp, OF nys]
  have 5: "init Client (save_config (graph_of ?x)) [] = Inl YAMLError" by simp
  have nb: "\<not> (\<exists>m \<in> set env_mappings. getenv ?e (fst m) \<noteq> None \<and> blocked_path (snd m) (config ?s))"
    by (simp add: env_mappings_def getenv_def blocked_path_unfold blocked_path_single)
  from t[where e = ?e and s = ?s and prof = Client, THEN conjunct2, THEN conjunct2,
      THEN conjunct2, THEN conjunct2, THEN mp, OF ys, THEN conjunct2] nb
  have 6: "\<exists>g1. init Client (save_config (graph_of ?s)) ?e = Inr g1" by simp
  show ?thesis by (intro conjI a 1 2 3 4 5 6)
qed

end
